theory Spec2Isabelle
  imports Main
begin

text \<open>
  The monthly export of support tickets: \<open>run\<close> of \<open>export.js\<close> with its error
  handler, the batch script that differs from it in the fresh-run reset and the guard of
  the finalizer, and the single-shot handler that keeps its state in files under
  \<open>/tmp\<close>. The Sheets, Drive, mail and feed services are a store that is passed
  along, with a trace of the calls made to them. \<open>getMonthRange\<close> is not part of the
  model: a window comes with its two bounds.
\<close>

section \<open>JavaScript values\<close>

text \<open>
  The scripts compare and store UNIX timestamps in seconds. A JavaScript number that the
  scripts use as a timestamp is an \<open>int\<close>; \<open>None\<close> stands for \<open>NaN\<close> and for
  \<open>undefined\<close>, which both make \<open>>=\<close> and \<open><\<close> false.
\<close>

type_synonym num = "int option"

definition js_ge :: "num \<Rightarrow> int \<Rightarrow> bool" where
  "js_ge a b = (case a of None \<Rightarrow> False | Some x \<Rightarrow> b \<le> x)"

definition js_lt :: "num \<Rightarrow> int \<Rightarrow> bool" where
  "js_lt a b = (case a of None \<Rightarrow> False | Some x \<Rightarrow> x < b)"

text \<open>An id field of the upstream JSON: missing, \<open>null\<close>, or a number.\<close>

datatype jsid = Undefined | Null | Id int

fun truthy :: "jsid \<Rightarrow> bool" where
  "truthy (Id n) = (n \<noteq> 0)"
| "truthy Undefined = False"
| "truthy Null = False"

text \<open>A value written into a spreadsheet cell; \<open>Empty\<close> is JSON \<open>null\<close>.\<close>

datatype cell = Number int | Text string | Empty

definition cell_of_num :: "num \<Rightarrow> cell" where
  "cell_of_num n = (case n of None \<Rightarrow> Empty | Some i \<Rightarrow> Number i)"

text \<open>
  The outcome of \<open>await fetch(url)\<close> followed by \<open>await response.json()\<close>: either
  of the two rejects with a message (as does reading a field of a body that parsed to
  \<open>null\<close>), or the body parses to a value. The scripts in \<open>export.js\<close> never look
  at the HTTP status.
\<close>

datatype 'a fetched = Throws string | Json 'a

section \<open>Upstream data\<close>

record ticket =
  ticket_id :: int
  created_at :: string
  requester_id :: jsid
  via_channel :: "string option"
  subject :: "string option"
  status :: string

record comment =
  is_public :: bool
  author_id :: jsid
  body :: string

datatype url = Incremental num | Link string

text \<open>
  One response of the incremental feed: \<open>data.tickets\<close> (absent is \<open>None\<close>),
  \<open>data.end_time\<close>, the truthiness of \<open>data.end_of_stream\<close>, and \<open>data.next_page\<close>
  (\<open>None\<close> when it is falsy).
\<close>

record page =
  tickets :: "ticket list option"
  end_time :: num
  end_of_stream :: bool
  next_page :: "url option"

text \<open>
  The export window is what \<open>getMonthRange(monthStr)\<close> returned for a well-formed
  month: \<open>startTimestamp\<close> and \<open>endTimestamp\<close> are proper numbers.
\<close>

record window =
  monthStr :: string
  startTimestamp :: int
  endTimestamp :: int

section \<open>The system spreadsheet, Drive and the mail transport\<close>

record row =
  record_id :: int
  row_created_at :: string
  requester_email :: string
  channel :: string
  row_subject :: string
  body_digest :: string

text \<open>
  A row of \<open>Logs!A:G\<close> without column A, which holds the wall-clock time of the call.
\<close>

record log_row =
  log_month :: string
  log_checkpoint :: cell
  log_fetched :: nat
  log_saved :: nat
  log_last :: cell
  log_status :: string

datatype line = Header "string list" | Data row

record workbook =
  name :: string
  contents :: "line list"
  permissions :: "string list"

record mail =
  mail_to :: "string list"
  mail_subject :: string
  mail_file :: nat

datatype request =
    FetchPage url
  | FetchUser jsid
  | FetchComments int
  | GetState
  | AppendRaw "row list"
  | UpdateState num
  | AppendLog log_row
  | CreateFile string
  | GetRaw
  | UpdateReport nat "line list"
  | CreatePermission nat string
  | SendMail mail
  | ClearState
  | ClearRaw
  | ClearLogs

text \<open>
  \<open>State_sheet\<close> is \<open>State!A:B\<close>: per row the text of column A and what
  \<open>parseInt\<close> returns for column B (\<open>Some n\<close> for a cell that shows the integer
  \<open>n\<close>, \<open>None\<close> for a blank or non-numeric cell). \<open>trace\<close> lists every external
  call in the order it was issued, with whether it completed.
\<close>

record world =
  State_sheet :: "(string \<times> num) list"
  Tickets_Raw :: "row list"
  Logs :: "log_row list"
  files :: "workbook list"
  outbox :: "mail list"
  trace :: "(request \<times> bool) list"

text \<open>
  Everything outside the scripts: \<open>date_ms s\<close> is \<open>new Date(s).getTime()\<close>
  (\<open>None\<close> for \<open>NaN\<close>), \<open>users\<close> and \<open>comments_of\<close> answer the two per-ticket
  lookups (the JSON body's \<open>user.email\<close> and \<open>comments\<close>, \<open>None\<close> when absent),
  \<open>rejects n\<close> tells whether the Google or SMTP call issued as external call number
  \<open>n\<close> rejects and with which message, and \<open>EMAIL_RECIPIENTS\<close> is the environment
  variable.
\<close>

record env =
  date_ms :: "string \<Rightarrow> int option"
  users :: "jsid \<Rightarrow> string option fetched"
  comments_of :: "int \<Rightarrow> comment list option fetched"
  rejects :: "nat \<Rightarrow> string option"
  EMAIL_RECIPIENTS :: "string option"

text \<open>
  An awaited computation resolves (\<open>Ok\<close>), rejects with \<open>err.message\<close>
  (\<open>Threw\<close>), or is still inside the page loop when the list of feed responses it was
  given is used up (\<open>Starved\<close>). Each carries the world at that moment.
\<close>

datatype 'a res = Ok 'a world | Threw string world | Starved world

fun world_of :: "'a res \<Rightarrow> world" where
  "world_of (Ok a s) = s"
| "world_of (Threw m s) = s"
| "world_of (Starved s) = s"

definition issue :: "request \<Rightarrow> bool \<Rightarrow> world \<Rightarrow> world" where
  "issue rq done s = s\<lparr>trace := trace s @ [(rq, done)]\<rparr>"

definition call :: "env \<Rightarrow> request \<Rightarrow> (world \<Rightarrow> world) \<Rightarrow> world \<Rightarrow> unit res" where
  "call e rq f s =
     (case rejects e (length (trace s)) of
        Some m \<Rightarrow> Threw m (issue rq False s)
      | None \<Rightarrow> Ok () (f (issue rq True s)))"

definition fetch_json :: "request \<Rightarrow> 'a fetched \<Rightarrow> world \<Rightarrow> 'a res" where
  "fetch_json rq r s =
     (case r of
        Throws m \<Rightarrow> Threw m (issue rq False s)
      | Json a \<Rightarrow> Ok a (issue rq True s))"

section \<open>export.js\<close>

subsection \<open>RECIPIENTS\<close>

text \<open>
  \<open>split(",")\<close> and \<open>trim()\<close>; of the white space that \<open>trim\<close> removes, the
  characters of ASCII are modelled.
\<close>

fun split_comma :: "string \<Rightarrow> string list" where
  "split_comma [] = [[]]"
| "split_comma (c # cs) =
     (if c = CHR '','' then [] # split_comma cs
      else (case split_comma cs of [] \<Rightarrow> [[c]] | x # xs \<Rightarrow> (c # x) # xs))"

definition is_ws :: "char \<Rightarrow> bool" where
  "is_ws c = (c \<in> {CHR '' '', CHR 0x09, CHR 0x0A, CHR 0x0B, CHR 0x0C, CHR 0x0D})"

definition trim :: "string \<Rightarrow> string" where
  "trim s = rev (dropWhile is_ws (rev (dropWhile is_ws s)))"

definition RECIPIENTS :: "env \<Rightarrow> string list" where
  "RECIPIENTS e =
     (case EMAIL_RECIPIENTS e of
        None \<Rightarrow> []
      | Some v \<Rightarrow> if v = [] then [] else map trim (split_comma v))"

subsection \<open>log\<close>

definition log :: "env \<Rightarrow> window \<Rightarrow> string \<Rightarrow> cell \<Rightarrow> nat \<Rightarrow> nat \<Rightarrow> cell \<Rightarrow> world \<Rightarrow> unit res" where
  "log e w st cp fetched saved lastTicket s =
     (let r = \<lparr>log_month = monthStr w, log_checkpoint = cp, log_fetched = fetched,
               log_saved = saved, log_last = lastTicket, log_status = st\<rparr>
      in call e (AppendLog r) (\<lambda>s. s\<lparr>Logs := Logs s @ [r]\<rparr>) s)"

subsection \<open>Reading and writing the checkpoint\<close>

definition get_checkpoint :: "window \<Rightarrow> (string \<times> num) list \<Rightarrow> num" where
  "get_checkpoint w rows =
     foldl (\<lambda>cp r. if fst r = ''checkpoint'' then snd r else cp) (Some (startTimestamp w)) rows"

text \<open>
  \<open>values.update\<close> and \<open>values.clear\<close> on \<open>State!A2:B2\<close> touch the second row
  only. A \<open>null\<close> in the request body leaves the cell as it is.
\<close>

definition row2 :: "(string \<times> num) list \<Rightarrow> string \<times> num" where
  "row2 rows = (case rows of a # b # rest \<Rightarrow> b | _ \<Rightarrow> ([], None))"

definition set_row2 :: "string \<times> num \<Rightarrow> (string \<times> num) list \<Rightarrow> (string \<times> num) list" where
  "set_row2 r rows =
     (case rows of
        [] \<Rightarrow> [([], None), r]
      | [a] \<Rightarrow> [a, r]
      | a # b # rest \<Rightarrow> a # r # rest)"

definition update_state :: "num \<Rightarrow> world \<Rightarrow> world" where
  "update_state cp s =
     s\<lparr>State_sheet :=
         set_row2 (''checkpoint'', case cp of None \<Rightarrow> snd (row2 (State_sheet s)) | Some c \<Rightarrow> Some c)
           (State_sheet s)\<rparr>"

definition clear_state :: "world \<Rightarrow> world" where
  "clear_state s = s\<lparr>State_sheet := set_row2 ([], None) (State_sheet s)\<rparr>"

subsection \<open>Enriching one ticket\<close>

definition createdTs :: "env \<Rightarrow> string \<Rightarrow> num" where
  "createdTs e c = map_option (\<lambda>ms. ms div 1000) (date_ms e c)"

definition in_window :: "window \<Rightarrow> num \<Rightarrow> bool" where
  "in_window w ts = (js_ge ts (startTimestamp w) \<and> js_lt ts (endTimestamp w))"

definition sep :: string where
  "sep = [CHR 0x0A, CHR 0x0A] @ ''---'' @ [CHR 0x0A, CHR 0x0A]"

fun join :: "string \<Rightarrow> string list \<Rightarrow> string" where
  "join s [] = []"
| "join s [x] = x"
| "join s (x # y # ys) = x @ s @ join s (y # ys)"

definition role :: "ticket \<Rightarrow> comment \<Rightarrow> string" where
  "role t c = (if author_id c = requester_id t then ''**Requester:**'' else ''**Agent:**'')"

definition formattedComments :: "ticket \<Rightarrow> comment list \<Rightarrow> string" where
  "formattedComments t cs =
     join sep (map (\<lambda>c. role t c @ '' '' @ body c) (filter is_public cs))"

definition or_empty :: "string option \<Rightarrow> string" where
  "or_empty v = (case v of None \<Rightarrow> [] | Some x \<Rightarrow> x)"

definition or_NA :: "string option \<Rightarrow> string" where
  "or_NA v = (case v of None \<Rightarrow> ''N/A'' | Some x \<Rightarrow> if x = [] then ''N/A'' else x)"

definition requesterEmail :: "env \<Rightarrow> ticket \<Rightarrow> world \<Rightarrow> string res" where
  "requesterEmail e t s =
     (if truthy (requester_id t) then
        (case fetch_json (FetchUser (requester_id t)) (users e (requester_id t)) s of
           Ok userData s' \<Rightarrow> Ok (or_NA userData) s'
         | Threw m s' \<Rightarrow> Threw m s'
         | Starved s' \<Rightarrow> Starved s')
      else Ok ''N/A'' s)"

definition enrich :: "env \<Rightarrow> ticket \<Rightarrow> world \<Rightarrow> row res" where
  "enrich e t s =
     (case requesterEmail e t s of
        Threw m s1 \<Rightarrow> Threw m s1
      | Starved s1 \<Rightarrow> Starved s1
      | Ok email s1 \<Rightarrow>
          (case fetch_json (FetchComments (ticket_id t)) (comments_of e (ticket_id t)) s1 of
             Threw m s2 \<Rightarrow> Threw m s2
           | Starved s2 \<Rightarrow> Starved s2
           | Ok commentsData s2 \<Rightarrow>
               Ok \<lparr>record_id = ticket_id t,
                   row_created_at = created_at t,
                   requester_email = email,
                   channel = or_empty (via_channel t),
                   row_subject = or_empty (subject t),
                   body_digest =
                     formattedComments t (case commentsData of None \<Rightarrow> [] | Some cs \<Rightarrow> cs)\<rparr>
                  s2))"

subsection \<open>The loop over the tickets of a page\<close>

fun collect ::
  "env \<Rightarrow> window \<Rightarrow> ticket list \<Rightarrow> row list \<Rightarrow> int option \<Rightarrow> world \<Rightarrow> (row list \<times> int option) res"
where
  "collect e w [] rows lastTicketID s = Ok (rows, lastTicketID) s"
| "collect e w (t # ts) rows lastTicketID s =
     (if in_window w (createdTs e (created_at t)) then
        (case enrich e t s of
           Threw m s' \<Rightarrow> Threw m s'
         | Starved s' \<Rightarrow> Starved s'
         | Ok r s' \<Rightarrow> collect e w ts (rows @ [r]) (Some (ticket_id t)) s')
      else collect e w ts rows lastTicketID s)"

subsection \<open>The body of the page loop, from the parsed response to the audit entry\<close>

record locals =
  checkpoint :: num
  totalFetched :: nat
  totalSaved :: nat
  lastTicketID :: "int option"

definition append_rows :: "env \<Rightarrow> row list \<Rightarrow> world \<Rightarrow> unit res" where
  "append_rows e rows s =
     (if rows \<noteq> [] then call e (AppendRaw rows) (\<lambda>s. s\<lparr>Tickets_Raw := Tickets_Raw s @ rows\<rparr>) s
      else Ok () s)"

definition process_page :: "env \<Rightarrow> window \<Rightarrow> page \<Rightarrow> locals \<Rightarrow> world \<Rightarrow> locals res" where
  "process_page e w data l s =
     (let ts = (case tickets data of None \<Rightarrow> [] | Some ts \<Rightarrow> ts);
          newCheckpoint = end_time data;
          fetched = totalFetched l + length ts
      in case collect e w ts [] (lastTicketID l) s of
           Threw m s1 \<Rightarrow> Threw m s1
         | Starved s1 \<Rightarrow> Starved s1
         | Ok (rows, lastT) s1 \<Rightarrow>
             (case append_rows e rows s1 of
                Threw m s2 \<Rightarrow> Threw m s2
              | Starved s2 \<Rightarrow> Starved s2
              | Ok u s2 \<Rightarrow>
                  (let saved = totalSaved l + length rows
                   in case call e (UpdateState newCheckpoint) (update_state newCheckpoint) s2 of
                        Threw m s3 \<Rightarrow> Threw m s3
                      | Starved s3 \<Rightarrow> Starved s3
                      | Ok u s3 \<Rightarrow>
                          (case log e w ''Running'' (cell_of_num newCheckpoint) fetched saved
                                  (cell_of_num lastT) s3 of
                             Threw m s4 \<Rightarrow> Threw m s4
                           | Starved s4 \<Rightarrow> Starved s4
                           | Ok u s4 \<Rightarrow>
                               Ok \<lparr>checkpoint = newCheckpoint, totalFetched = fetched,
                                   totalSaved = saved, lastTicketID = lastT\<rparr> s4))))"

subsection \<open>The page loop\<close>

text \<open>
  \<open>while (nextUrl)\<close>: the k-th fetch of the feed is answered by the k-th element of the
  list; \<open>Starved\<close> when the loop asks for more than the list holds.
\<close>

fun page_loop ::
  "env \<Rightarrow> window \<Rightarrow> page fetched list \<Rightarrow> url option \<Rightarrow> locals \<Rightarrow> world \<Rightarrow> locals res"
where
  "page_loop e w ps None l s = Ok l s"
| "page_loop e w [] (Some nextUrl) l s = Starved s"
| "page_loop e w (p # ps) (Some nextUrl) l s =
     (case fetch_json (FetchPage nextUrl) p s of
        Threw m s1 \<Rightarrow> Threw m s1
      | Starved s1 \<Rightarrow> Starved s1
      | Ok data s1 \<Rightarrow>
          (case process_page e w data l s1 of
             Threw m s2 \<Rightarrow> Threw m s2
           | Starved s2 \<Rightarrow> Starved s2
           | Ok l' s2 \<Rightarrow>
               if end_of_stream data \<or> js_ge (checkpoint l') (endTimestamp w) then Ok l' s2
               else page_loop e w ps (next_page data) l' s2))"

subsection \<open>Finalization\<close>

text \<open>
  The finalizer of \<open>run\<close>, with the global \<open>RECIPIENTS\<close> as the argument
  \<open>recipients\<close>. \<open>file.data.id\<close> is the position of the new workbook among the
  Drive files.
\<close>

definition report_header :: "string list" where
  "report_header =
     [''Ticket ID'', ''Created At'', ''Requester Email'', ''Channel'', ''Subject'',
      ''All Public Comments'']"

fun share :: "env \<Rightarrow> nat \<Rightarrow> string list \<Rightarrow> world \<Rightarrow> unit res" where
  "share e exportId [] s = Ok () s"
| "share e exportId (email # rest) s =
     (case call e (CreatePermission exportId email)
             (\<lambda>s. s\<lparr>files := (files s)[exportId :=
                      (files s ! exportId)\<lparr>permissions := permissions (files s ! exportId) @ [email]\<rparr>]\<rparr>) s of
        Threw m s' \<Rightarrow> Threw m s'
      | Starved s' \<Rightarrow> Starved s'
      | Ok u s' \<Rightarrow> share e exportId rest s')"

definition send_link :: "env \<Rightarrow> window \<Rightarrow> string list \<Rightarrow> nat \<Rightarrow> world \<Rightarrow> unit res" where
  "send_link e w recipients exportId s =
     (if recipients \<noteq> [] then
        (let m = \<lparr>mail_to = recipients,
                  mail_subject = ''Zendesk Monthly Report - '' @ monthStr w,
                  mail_file = exportId\<rparr>
         in call e (SendMail m) (\<lambda>s. s\<lparr>outbox := outbox s @ [m]\<rparr>) s)
      else Ok () s)"

definition cleanup :: "env \<Rightarrow> window \<Rightarrow> locals \<Rightarrow> world \<Rightarrow> unit res" where
  "cleanup e w l s =
     (case call e ClearState clear_state s of
        Threw m s1 \<Rightarrow> Threw m s1
      | Starved s1 \<Rightarrow> Starved s1
      | Ok u s1 \<Rightarrow>
          (case call e ClearRaw (\<lambda>s. s\<lparr>Tickets_Raw := []\<rparr>) s1 of
             Threw m s2 \<Rightarrow> Threw m s2
           | Starved s2 \<Rightarrow> Starved s2
           | Ok u s2 \<Rightarrow>
               log e w ''Export Complete'' (Text ''FINAL'') (totalFetched l) (totalSaved l)
                 (Text ''DONE'') s2))"

definition finalize :: "env \<Rightarrow> window \<Rightarrow> string list \<Rightarrow> locals \<Rightarrow> world \<Rightarrow> unit res" where
  "finalize e w recipients l s =
     (let exportId = length (files s)
      in case call e (CreateFile (''Zendesk Export - '' @ monthStr w))
                (\<lambda>s. s\<lparr>files := files s @
                         [\<lparr>name = ''Zendesk Export - '' @ monthStr w, contents = [],
                           permissions = []\<rparr>]\<rparr>) s of
           Threw m s1 \<Rightarrow> Threw m s1
         | Starved s1 \<Rightarrow> Starved s1
         | Ok u s1 \<Rightarrow>
             (case call e GetRaw (\<lambda>s. s) s1 of
                Threw m s2 \<Rightarrow> Threw m s2
              | Starved s2 \<Rightarrow> Starved s2
              | Ok u s2 \<Rightarrow>
                  (let values = Header report_header # map Data (Tickets_Raw s2)
                   in case call e (UpdateReport exportId values)
                             (\<lambda>s. s\<lparr>files := (files s)[exportId :=
                                      (files s ! exportId)\<lparr>contents := values\<rparr>]\<rparr>) s2 of
                        Threw m s3 \<Rightarrow> Threw m s3
                      | Starved s3 \<Rightarrow> Starved s3
                      | Ok u s3 \<Rightarrow>
                          (case share e exportId recipients s3 of
                             Threw m s4 \<Rightarrow> Threw m s4
                           | Starved s4 \<Rightarrow> Starved s4
                           | Ok u s4 \<Rightarrow>
                               (case send_link e w recipients exportId s4 of
                                  Threw m s5 \<Rightarrow> Threw m s5
                                | Starved s5 \<Rightarrow> Starved s5
                                | Ok u s5 \<Rightarrow> cleanup e w l s5)))))"

subsection \<open>run and the error handler\<close>

definition run :: "env \<Rightarrow> window \<Rightarrow> page fetched list \<Rightarrow> world \<Rightarrow> unit res" where
  "run e w ps s =
     (case call e GetState (\<lambda>s. s) s of
        Threw m s1 \<Rightarrow> Threw m s1
      | Starved s1 \<Rightarrow> Starved s1
      | Ok u s1 \<Rightarrow>
          (let cp = get_checkpoint w (State_sheet s1)
           in case page_loop e w ps (Some (Incremental cp))
                     \<lparr>checkpoint = cp, totalFetched = 0, totalSaved = 0, lastTicketID = None\<rparr> s1 of
                Threw m s2 \<Rightarrow> Threw m s2
              | Starved s2 \<Rightarrow> Starved s2
              | Ok l s2 \<Rightarrow> finalize e w (RECIPIENTS e) l s2))"

text \<open>
  \<open>run().catch(...)\<close>: the exit code of the process (\<open>None\<close> while the page loop is
  still waiting for the feed) and the world it leaves behind.
\<close>

definition main :: "env \<Rightarrow> window \<Rightarrow> page fetched list \<Rightarrow> world \<Rightarrow> nat option \<times> world" where
  "main e w ps s =
     (case run e w ps s of
        Ok u s' \<Rightarrow> (Some 0, s')
      | Threw m s' \<Rightarrow>
          (Some 1, world_of (log e w (''ERROR: '' @ m) (Text ''UNKNOWN'') 0 0 (Text ''FAIL'') s'))
      | Starved s' \<Rightarrow> (None, s'))"

section \<open>The batch script (second run, with the fresh-run reset)\<close>

text \<open>
  Its page loop is the one of \<open>export.js\<close>, statement for statement. It differs in how
  it reads the checkpoint (\<open>row[1]\<close> must be truthy, taken here as: \<open>parseInt\<close> reads a
  number from it), in the reset of a fresh run, in \<open>RECIPIENTS\<close> (no \<open>trim\<close>) and in
  the guard in front of the finalizer.
\<close>

definition RECIPIENTS_batch :: "env \<Rightarrow> string list" where
  "RECIPIENTS_batch e =
     (case EMAIL_RECIPIENTS e of
        None \<Rightarrow> []
      | Some v \<Rightarrow> if v = [] then [] else split_comma v)"

definition get_checkpoint_batch :: "window \<Rightarrow> (string \<times> num) list \<Rightarrow> num \<times> bool" where
  "get_checkpoint_batch w rows =
     foldl (\<lambda>(cp, isFreshRun) r.
              if fst r = ''checkpoint'' \<and> snd r \<noteq> None then (snd r, False) else (cp, isFreshRun))
       (Some (startTimestamp w), True) rows"

definition fresh_reset :: "env \<Rightarrow> bool \<Rightarrow> world \<Rightarrow> unit res" where
  "fresh_reset e isFreshRun s =
     (if isFreshRun then
        (case call e ClearLogs (\<lambda>s. s\<lparr>Logs := []\<rparr>) s of
           Threw m s1 \<Rightarrow> Threw m s1
         | Starved s1 \<Rightarrow> Starved s1
         | Ok u s1 \<Rightarrow> call e ClearRaw (\<lambda>s. s\<lparr>Tickets_Raw := []\<rparr>) s1)
      else Ok () s)"

definition run_batch :: "env \<Rightarrow> window \<Rightarrow> page fetched list \<Rightarrow> world \<Rightarrow> unit res" where
  "run_batch e w ps s =
     (case call e GetState (\<lambda>s. s) s of
        Threw m s1 \<Rightarrow> Threw m s1
      | Starved s1 \<Rightarrow> Starved s1
      | Ok u s1 \<Rightarrow>
          (let cp = fst (get_checkpoint_batch w (State_sheet s1));
               isFreshRun = snd (get_checkpoint_batch w (State_sheet s1))
           in case fresh_reset e isFreshRun s1 of
                Threw m s2 \<Rightarrow> Threw m s2
              | Starved s2 \<Rightarrow> Starved s2
              | Ok u s2 \<Rightarrow>
                  (case page_loop e w ps (Some (Incremental cp))
                          \<lparr>checkpoint = cp, totalFetched = 0, totalSaved = 0,
                           lastTicketID = None\<rparr> s2 of
                     Threw m s3 \<Rightarrow> Threw m s3
                   | Starved s3 \<Rightarrow> Starved s3
                   | Ok l s3 \<Rightarrow>
                       if js_ge (checkpoint l) (endTimestamp w)
                       then finalize e w (RECIPIENTS_batch e) l s3
                       else Ok () s3)))"

section \<open>The single-shot handler (files under /tmp, Excel attachment)\<close>

text \<open>
  What \<open>fetch\<close> gives the handler: a rejection, a response that is not \<open>ok\<close> (status
  and text), or a parsed body.
\<close>

datatype feed_reply = Rejected string | NotOk nat string | Body page

record xrow =
  x_ticket_id :: int
  x_created_at :: string
  x_requester :: jsid
  x_channel :: string
  x_subject :: string
  x_status :: string

text \<open>
  The three files: \<open>checkpoint.json\<close> (its \<open>end_time\<close>), \<open>tickets.json\<close> and
  \<open>december_export.xlsx\<close>, \<open>None\<close> when the file does not exist; \<open>sent\<close> holds the
  attachments mailed so far.
\<close>

record tmp =
  checkpoint_json :: "num option"
  tickets_json :: "ticket list option"
  december_export :: "xrow list option"
  sent :: "xrow list list"

datatype answer = Error nat string | Progress nat nat | Completed nat

definition formatted :: "ticket \<Rightarrow> xrow" where
  "formatted t =
     \<lparr>x_ticket_id = ticket_id t, x_created_at = created_at t, x_requester = requester_id t,
      x_channel = or_empty (via_channel t), x_subject = or_empty (subject t),
      x_status = status t\<rparr>"

definition handler ::
  "bool \<Rightarrow> (num \<Rightarrow> feed_reply) \<Rightarrow> string option \<Rightarrow> tmp \<Rightarrow> answer \<times> tmp"
where
  "handler credentials upstream sendMail_rejects fs =
     (if \<not> credentials then (Error 500 ''Missing Zendesk credentials'', fs)
      else
        (let startTime = (case checkpoint_json fs of Some saved \<Rightarrow> saved | None \<Rightarrow> Some 1764547200)
         in case upstream startTime of
              Rejected m \<Rightarrow> (Error 500 m, fs)
            | NotOk st errorText \<Rightarrow> (Error st errorText, fs)
            | Body data \<Rightarrow>
                (let ts = (case tickets data of None \<Rightarrow> [] | Some ts \<Rightarrow> ts);
                     existing = (case tickets_json fs of None \<Rightarrow> [] | Some x \<Rightarrow> x);
                     combined = existing @ ts;
                     fs1 = fs\<lparr>tickets_json := Some combined,
                              checkpoint_json := Some (end_time data)\<rparr>
                 in if \<not> end_of_stream data then (Progress (length ts) (length combined), fs1)
                    else
                      (let fs2 = fs1\<lparr>december_export := Some (map formatted combined)\<rparr>
                       in case sendMail_rejects of
                            Some m \<Rightarrow> (Error 500 m, fs2)
                          | None \<Rightarrow>
                              (Completed (length combined),
                               fs2\<lparr>checkpoint_json := None, tickets_json := None,
                                   december_export := None,
                                   sent := sent fs2 @ [map formatted combined]\<rparr>)))))"

section \<open>Reading a trace\<close>

definition since :: "world \<Rightarrow> world \<Rightarrow> (request \<times> bool) list" where
  "since s s' = drop (length (trace s)) (trace s')"

text \<open>The rows that completed appends put into \<open>Tickets_Raw\<close>.\<close>

fun appended :: "(request \<times> bool) list \<Rightarrow> row list" where
  "appended [] = []"
| "appended ((AppendRaw rows, True) # tr) = rows @ appended tr"
| "appended (ev # tr) = appended tr"

text \<open>Whether the finalizer was entered: it starts by creating the workbook.\<close>

fun finalizing :: "(request \<times> bool) list \<Rightarrow> bool" where
  "finalizing [] = False"
| "finalizing ((CreateFile n, ok) # tr) = True"
| "finalizing (ev # tr) = finalizing tr"

section \<open>The body digest in the words of the specification\<close>

text \<open>
  Retain only the comments marked public; label each retained comment Requester if its
  author id equals the record's requester id, else Agent; join the labelled bodies with
  the fixed separator, in the order the comments came.
\<close>

fun digest_spec :: "jsid \<Rightarrow> comment list \<Rightarrow> string" where
  "digest_spec rid [] = []"
| "digest_spec rid (c # cs) =
     (if is_public c then
        (if author_id c = rid then ''**Requester:**'' else ''**Agent:**'') @ '' '' @ body c @
        (if filter is_public cs = [] then [] else sep @ digest_spec rid cs)
      else digest_spec rid cs)"

section \<open>A concrete month, feed and store\<close>

definition dec2025 :: window where
  "dec2025 = \<lparr>monthStr = ''2025-12'', startTimestamp = 1764547200, endTimestamp = 1767225600\<rparr>"

definition nov2025 :: window where
  "nov2025 = \<lparr>monthStr = ''2025-11'', startTimestamp = 1761955200, endTimestamp = 1764547200\<rparr>"

definition calendar :: "string \<Rightarrow> int option" where
  "calendar =
     map_of
       [(''2025-11-30T23:59:59Z'', 1764547199000),
        (''2025-12-01T00:00:00Z'', 1764547200000),
        (''2025-12-01T00:00:05Z'', 1764547205000),
        (''2025-12-31T23:59:59Z'', 1767225599000),
        (''2026-01-01T00:00:00Z'', 1767225600000)]"

definition ticketA :: ticket where
  "ticketA = \<lparr>ticket_id = 101, created_at = ''2025-12-01T00:00:05Z'', requester_id = Id 7,
              via_channel = Some ''email'', subject = Some ''Printer'', status = ''open''\<rparr>"

definition ticketB :: ticket where
  "ticketB = \<lparr>ticket_id = 102, created_at = ''2026-01-01T00:00:00Z'', requester_id = Id 8,
              via_channel = Some ''web'', subject = None, status = ''new''\<rparr>"

definition ticketOld :: ticket where
  "ticketOld = \<lparr>ticket_id = 99, created_at = ''2025-11-30T23:59:59Z'', requester_id = Id 7,
                via_channel = None, subject = Some ''Invoice'', status = ''solved''\<rparr>"

definition ticketFirst :: ticket where
  "ticketFirst = \<lparr>ticket_id = 100, created_at = ''2025-12-01T00:00:00Z'', requester_id = Null,
                  via_channel = None, subject = None, status = ''new''\<rparr>"

definition ticketBad :: ticket where
  "ticketBad = \<lparr>ticket_id = 103, created_at = ''yesterday'', requester_id = Id 7,
                via_channel = None, subject = None, status = ''new''\<rparr>"

definition thread :: "comment list" where
  "thread =
     [\<lparr>is_public = True, author_id = Id 7, body = ''Help''\<rparr>,
      \<lparr>is_public = False, author_id = Id 9, body = ''internal''\<rparr>,
      \<lparr>is_public = True, author_id = Id 9, body = ''On it''\<rparr>]"

definition env0 :: env where
  "env0 =
     \<lparr>date_ms = calendar,
      users = (\<lambda>i. Json (Some ''ann@example.com'')),
      comments_of = (\<lambda>i. Json (Some thread)),
      rejects = (\<lambda>n. None),
      EMAIL_RECIPIENTS = None\<rparr>"

definition world0 :: world where
  "world0 = \<lparr>State_sheet = [], Tickets_Raw = [], Logs = [], files = [], outbox = [], trace = []\<rparr>"

definition rowA :: row where
  "rowA = \<lparr>record_id = 101, row_created_at = ''2025-12-01T00:00:05Z'',
           requester_email = ''ann@example.com'', channel = ''email'', row_subject = ''Printer'',
           body_digest = ''**Requester:** Help'' @ sep @ ''**Agent:** On it''\<rparr>"

definition pageAB :: page where
  "pageAB = \<lparr>tickets = Some [ticketA, ticketB], end_time = Some 1767225600,
             end_of_stream = True, next_page = None\<rparr>"

section \<open>Notions used in the proofs\<close>

text \<open>
  \<open>grows P s s'\<close>: the trace of \<open>s'\<close> is the trace of \<open>s\<close> followed by calls that
  all satisfy \<open>P\<close>.
\<close>

definition grows :: "(request \<times> bool \<Rightarrow> bool) \<Rightarrow> world \<Rightarrow> world \<Rightarrow> bool" where
  "grows P s s' = (\<exists>evs. trace s' = trace s @ evs \<and> list_all P evs)"

definition lookup_free :: "(request \<times> bool \<Rightarrow> bool) \<Rightarrow> bool" where
  "lookup_free P = (\<forall>i j b. P (FetchUser i, b) \<and> P (FetchComments j, b))"

text \<open>The window predicate of the page loop, read off a staged row.\<close>

definition inW :: "env \<Rightarrow> window \<Rightarrow> row \<Rightarrow> bool" where
  "inW e w r = in_window w (createdTs e (row_created_at r))"

text \<open>
  The calls the page loop issues (an append only with rows that pass the window test),
  and the calls the finalizer issues.
\<close>

definition loop_events :: "env \<Rightarrow> window \<Rightarrow> (request \<times> bool \<Rightarrow> bool) \<Rightarrow> bool" where
  "loop_events e w P =
     (\<forall>b. (\<forall>i. P (FetchUser i, b)) \<and> (\<forall>j. P (FetchComments j, b)) \<and>
          (\<forall>u. P (FetchPage u, b)) \<and> (\<forall>c. P (UpdateState c, b)) \<and>
          (\<forall>r. P (AppendLog r, b)) \<and>
          (\<forall>rows. list_all (inW e w) rows \<longrightarrow> P (AppendRaw rows, b)))"

definition final_events :: "(request \<times> bool \<Rightarrow> bool) \<Rightarrow> bool" where
  "final_events P =
     (\<forall>b. (\<forall>n. P (CreateFile n, b)) \<and> P (GetRaw, b) \<and> (\<forall>i v. P (UpdateReport i v, b)) \<and>
          (\<forall>i m. P (CreatePermission i m, b)) \<and> (\<forall>m. P (SendMail m, b)) \<and>
          P (ClearState, b) \<and> P (ClearRaw, b) \<and> (\<forall>r. P (AppendLog r, b)))"

definition staged_ok :: "env \<Rightarrow> window \<Rightarrow> request \<times> bool \<Rightarrow> bool" where
  "staged_ok e w ev = (case fst ev of AppendRaw rows \<Rightarrow> list_all (inW e w) rows | _ \<Rightarrow> True)"

section \<open>Further concrete inputs\<close>

definition tmp0 :: tmp where
  "tmp0 = \<lparr>checkpoint_json = None, tickets_json = None, december_export = None, sent = []\<rparr>"

definition pageOld :: page where
  "pageOld = \<lparr>tickets = Some [ticketOld, ticketB], end_time = Some 1767225700,
              end_of_stream = False, next_page = None\<rparr>"

definition feedOld :: "num \<Rightarrow> feed_reply" where
  "feedOld startTime = Body pageOld"

definition rowFirst :: row where
  "rowFirst = \<lparr>record_id = 100, row_created_at = ''2025-12-01T00:00:00Z'',
               requester_email = ''N/A'', channel = [], row_subject = [],
               body_digest = ''**Agent:** Help'' @ sep @ ''**Agent:** On it''\<rparr>"

definition pageNone :: page where
  "pageNone = \<lparr>tickets = None, end_time = Some 1764547300, end_of_stream = False, next_page = None\<rparr>"

definition locals0 :: locals where
  "locals0 = \<lparr>checkpoint = Some 1764547200, totalFetched = 0, totalSaved = 0, lastTicketID = None\<rparr>"

section \<open>When the page loop ends\<close>






definition worldA :: world where
  "worldA = \<lparr>State_sheet = [(''key'', None), (''checkpoint'', Some 1767225600)],
             Tickets_Raw = [rowA], Logs = [], files = [], outbox = [], trace = []\<rparr>"

definition localsA :: locals where
  "localsA = \<lparr>checkpoint = Some 1767225600, totalFetched = 2, totalSaved = 1,
              lastTicketID = Some 101\<rparr>"

section \<open>What a step leaves alone\<close>

definition same_store :: "world \<Rightarrow> world \<Rightarrow> bool" where
  "same_store s s' =
     (State_sheet s' = State_sheet s \<and> Tickets_Raw s' = Tickets_Raw s \<and> Logs s' = Logs s \<and>
      files s' = files s \<and> outbox s' = outbox s)"

definition pageNov :: page where
  "pageNov = \<lparr>tickets = Some [], end_time = Some 1762000000, end_of_stream = False,
              next_page = Some (Link ''https://example.zendesk.com/api/v2/incremental/tickets.json?start_time=1762000000'')\<rparr>"

text \<open>The store after a November run that committed one page and then lost the feed.\<close>

definition worldNov :: world where
  "worldNov = snd (main env0 nov2025 [Json pageNov, Throws ''ETIMEDOUT''] world0)"

section \<open>Lookups that fail\<close>





text \<open>
  \<open>clean s r\<close>: unless \<open>r\<close> is a rejection, every call made since \<open>s\<close> completed.
\<close>

definition clean :: "world \<Rightarrow> 'a res \<Rightarrow> bool" where
  "clean s r = ((\<forall>m s'. r \<noteq> Threw m s') \<longrightarrow> grows snd s (world_of r))"


definition error_row :: "window \<Rightarrow> string \<Rightarrow> log_row" where
  "error_row w m =
     \<lparr>log_month = monthStr w, log_checkpoint = Text ''UNKNOWN'', log_fetched = 0, log_saved = 0,
      log_last = Text ''FAIL'', log_status = ''ERROR: '' @ m\<rparr>"

section \<open>Commit after write, read off a trace\<close>

text \<open>
  One step of a check that walks along a trace. It carries the ids of the tickets
  enriched since the page was fetched whose rows are not in the staging sheet yet;
  \<open>None\<close> is a violation. Reading the state starts an invocation. A page may be
  fetched, and the checkpoint may be written (the call issued at all), only when no
  enriched row is waiting. An append must carry exactly the waiting rows, and only a
  completed one clears them.
\<close>

fun commit_step :: "int list option \<Rightarrow> request \<times> bool \<Rightarrow> int list option" where
  "commit_step None ev = None"
| "commit_step (Some ids) (GetState, b) = Some []"
| "commit_step (Some ids) (FetchPage u, b) = (if ids = [] then Some [] else None)"
| "commit_step (Some ids) (FetchComments j, True) = Some (ids @ [j])"
| "commit_step (Some ids) (AppendRaw rows, b) =
     (if map record_id rows = ids then Some (if b then [] else ids) else None)"
| "commit_step (Some ids) (UpdateState c, b) = (if ids = [] then Some ids else None)"
| "commit_step (Some ids) ev = Some ids"

definition tracks :: "int list \<Rightarrow> world \<Rightarrow> int list \<Rightarrow> world \<Rightarrow> bool" where
  "tracks ids s ids' s' =
     (\<exists>evs. trace s' = trace s @ evs \<and> foldl commit_step (Some ids) evs = Some ids')"

definition envAppend :: env where
  "envAppend = env0\<lparr>rejects := (\<lambda>n. if n = 4 then Some ''quota exceeded'' else None)\<rparr>"

definition commit_neutral :: "request \<times> bool \<Rightarrow> bool" where
  "commit_neutral ev = (\<forall>ids. commit_step (Some ids) ev = Some ids)"

section \<open>Invoking again past the end of the window\<close>

definition no_append :: "request \<times> bool \<Rightarrow> bool" where
  "no_append ev = (case fst ev of AppendRaw rows \<Rightarrow> False | _ \<Rightarrow> True)"

definition tickets_of :: "page \<Rightarrow> ticket list" where
  "tickets_of d = (case tickets d of None \<Rightarrow> [] | Some ts \<Rightarrow> ts)"

definition running_row :: "window \<Rightarrow> int \<Rightarrow> nat \<Rightarrow> log_row" where
  "running_row w c n =
     \<lparr>log_month = monthStr w, log_checkpoint = Number c, log_fetched = n, log_saved = 0,
      log_last = Empty, log_status = ''Running''\<rparr>"

text \<open>
  A page fetched at a cursor past December whose only ticket was created inside December
  (the incremental feed orders by update time), and one whose ticket was not.
\<close>

definition pageRe :: page where
  "pageRe = \<lparr>tickets = Some [ticketA], end_time = Some 1767225700, end_of_stream = True,
             next_page = None\<rparr>"

definition pageJan :: page where
  "pageJan = \<lparr>tickets = Some [ticketB], end_time = Some 1767225700, end_of_stream = True,
              next_page = None\<rparr>"

section \<open>The committed cursor along a trace\<close>

text \<open>
  One step of a check that follows the committed cursor along a trace, for a window that
  starts at \<open>st\<close>: a completed checkpoint write must carry a number that is neither
  below the cursor committed before it nor below \<open>st\<close>; a completed clear of
  \<open>State!A2:B2\<close> ends the lifetime of the checkpoint, and the cursor is \<open>st\<close> again.
  \<open>None\<close> is a violation.
\<close>

fun cursor_step :: "int \<Rightarrow> int option \<Rightarrow> request \<times> bool \<Rightarrow> int option" where
  "cursor_step st None ev = None"
| "cursor_step st (Some c) (UpdateState v, True) =
     (case v of None \<Rightarrow> None | Some c' \<Rightarrow> if c \<le> c' \<and> st \<le> c' then Some c' else None)"
| "cursor_step st (Some c) (ClearState, True) = Some st"
| "cursor_step st (Some c) ev = Some c"

text \<open>The cursors that completed checkpoint writes carried, in order.\<close>

fun commits :: "(request \<times> bool) list \<Rightarrow> num list" where
  "commits [] = []"
| "commits ((UpdateState v, True) # tr) = v # commits tr"
| "commits (ev # tr) = commits tr"

text \<open>
  The paginator contract, seen from the controller: the \<open>end_time\<close> of every page is a
  number not below the cursor the controller held when it asked for the page (the stored
  cursor for the first page, the previous \<open>end_time\<close> after that). Nothing is asked of
  what follows a fetch that throws.
\<close>

fun contract :: "num \<Rightarrow> page fetched list \<Rightarrow> bool" where
  "contract cur [] = True"
| "contract cur (Throws m # ps) = True"
| "contract cur (Json d # ps) =
     (case cur of
        None \<Rightarrow> False
      | Some c \<Rightarrow> (case end_time d of None \<Rightarrow> False | Some c' \<Rightarrow> c \<le> c' \<and> contract (Some c') ps))"

text \<open>
  A sequence of invocations for one window, each with its own environment and feed
  responses, on the store the one before left behind; and the contract for each of them.
\<close>

fun invocations :: "window \<Rightarrow> (env \<times> page fetched list) list \<Rightarrow> world \<Rightarrow> world" where
  "invocations w [] s = s"
| "invocations w (i # rest) s = invocations w rest (snd (main (fst i) w (snd i) s))"

fun contracts :: "window \<Rightarrow> (env \<times> page fetched list) list \<Rightarrow> world \<Rightarrow> bool" where
  "contracts w [] s = True"
| "contracts w (i # rest) s =
     (contract (get_checkpoint w (State_sheet s)) (snd i) \<and>
      contracts w rest (snd (main (fst i) w (snd i) s)))"

text \<open>Only the second row of the State sheet may carry the key.\<close>

definition only_row2 :: "(string \<times> num) list \<Rightarrow> bool" where
  "only_row2 rows = (\<forall>r \<in> set (take 1 rows @ drop 2 rows). fst r \<noteq> ''checkpoint'')"

definition stored :: "window \<Rightarrow> int \<Rightarrow> world \<Rightarrow> bool" where
  "stored w c s =
     (only_row2 (State_sheet s) \<and> get_checkpoint w (State_sheet s) = Some c \<and>
      startTimestamp w \<le> c)"

definition follows :: "window \<Rightarrow> int \<Rightarrow> world \<Rightarrow> int \<Rightarrow> world \<Rightarrow> bool" where
  "follows w c s c' s' =
     (\<exists>evs. trace s' = trace s @ evs \<and>
            foldl (cursor_step (startTimestamp w)) (Some c) evs = Some c')"

definition cursor_neutral :: "request \<times> bool \<Rightarrow> bool" where
  "cursor_neutral ev = (\<forall>st c. cursor_step st (Some c) ev = Some c)"

definition quiet :: "world \<Rightarrow> world \<Rightarrow> bool" where
  "quiet s s' = (State_sheet s' = State_sheet s \<and> grows cursor_neutral s s')"

definition safe :: "window \<Rightarrow> world \<Rightarrow> world \<Rightarrow> bool" where
  "safe w s s' = (\<forall>c. stored w c s \<longrightarrow> (\<exists>c'. follows w c s c' s' \<and> stored w c' s'))"

definition pageA1 :: page where
  "pageA1 = \<lparr>tickets = Some [ticketA], end_time = Some 1764547300, end_of_stream = False,
             next_page = Some (Link ''https://example.zendesk.com/api/v2/incremental/tickets.json?start_time=1764547300'')\<rparr>"

definition pageA2 :: page where
  "pageA2 = \<lparr>tickets = Some [], end_time = Some 1764547400, end_of_stream = False,
             next_page = Some (Link ''https://example.zendesk.com/api/v2/incremental/tickets.json?start_time=1764547400'')\<rparr>"

text \<open>Two invocations that each commit one page and then lose the feed.\<close>

definition interrupted_twice :: "(env \<times> page fetched list) list" where
  "interrupted_twice =
     [(env0, [Json pageA1, Throws ''ETIMEDOUT'']), (env0, [Json pageA2, Throws ''ETIMEDOUT''])]"

text \<open>
  An invocation that completes the export in two pages, and one more after it against the
  same feed.
\<close>

definition completed_then_again :: "(env \<times> page fetched list) list" where
  "completed_then_again =
     [(env0, [Json pageA1, Json pageAB]), (env0, [Json pageA1, Json pageAB])]"

section \<open>Basic facts about the external calls\<close>

lemma issue_fields [simp]:
  "trace (issue rq b s) = trace s @ [(rq, b)]"
  "State_sheet (issue rq b s) = State_sheet s"
  "Tickets_Raw (issue rq b s) = Tickets_Raw s"
  "Logs (issue rq b s) = Logs s"
  "files (issue rq b s) = files s"
  "outbox (issue rq b s) = outbox s"
  by (simp_all add: issue_def)

lemma grows_refl [simp]: "grows P s s"
  by (simp add: grows_def)

lemma grows_trans: "grows P s s' \<Longrightarrow> grows P s' s'' \<Longrightarrow> grows P s s''"
  by (auto simp: grows_def)

lemma grows_issue: "P (rq, b) \<Longrightarrow> grows P s (issue rq b s)"
  by (simp add: grows_def)

lemma grows_same: "grows P s s' \<Longrightarrow> trace s'' = trace s' \<Longrightarrow> grows P s s''"
  by (simp add: grows_def)

lemma grows_since: "grows P s s' \<Longrightarrow> list_all P (since s s')"
  by (auto simp: grows_def since_def)

lemma grows_call:
  assumes "P (rq, True)" "P (rq, False)" "\<And>x. trace (f x) = trace x"
  shows "grows P s (world_of (call e rq f s))"
  using assms
  by (auto simp: call_def split: option.splits intro: grows_issue grows_same [OF grows_issue])

lemma grows_fetch_json:
  assumes "P (rq, True)" "P (rq, False)"
  shows "grows P s (world_of (fetch_json rq r s))"
  using assms by (auto simp: fetch_json_def split: fetched.splits intro: grows_issue)

lemma never_starved_call [simp]: "call e rq f s \<noteq> Starved s'"
  by (simp add: call_def split: option.splits)

lemma never_starved_fetch [simp]: "fetch_json rq r s \<noteq> Starved s'"
  by (simp add: fetch_json_def split: fetched.splits)

lemma grows_bind:
  assumes "grows P s (world_of r)"
    and "\<And>a s1. r = Ok a s1 \<Longrightarrow> grows P s1 (world_of (k a s1))"
  shows "grows P s (world_of (case r of Ok a s1 \<Rightarrow> k a s1 | Threw m s1 \<Rightarrow> Threw m s1
                                | Starved s1 \<Rightarrow> Starved s1))"
  using assms by (cases r) (auto intro: grows_trans)

lemma loop_events_lookup_free: "loop_events e w P \<Longrightarrow> lookup_free P"
  by (simp add: loop_events_def lookup_free_def)

lemma grows_requesterEmail:
  assumes "lookup_free P"
  shows "grows P s (world_of (requesterEmail e t s))"
  using assms grows_fetch_json [of P "FetchUser (requester_id t)" s "users e (requester_id t)"]
  by (auto simp: requesterEmail_def lookup_free_def split: res.splits)

lemma grows_enrich:
  assumes P: "lookup_free P"
  shows "grows P s (world_of (enrich e t s))"
  unfolding enrich_def
  apply (rule grows_bind [OF grows_requesterEmail [OF P]])
  apply (rule grows_bind)
   apply (rule grows_fetch_json)
  using P apply (simp_all add: lookup_free_def)
  done

lemma grows_collect:
  assumes P: "lookup_free P"
  shows "grows P s (world_of (collect e w ts rows lt s))"
proof (induction ts arbitrary: rows lt s)
  case Nil
  then show ?case by simp
next
  case (Cons t ts)
  show ?case
  proof (cases "in_window w (createdTs e (created_at t))")
    case False
    then show ?thesis using Cons.IH by simp
  next
    case True
    have "grows P s (world_of (case enrich e t s of
              Ok r s' \<Rightarrow> collect e w ts (rows @ [r]) (Some (ticket_id t)) s'
            | Threw m s' \<Rightarrow> Threw m s' | Starved s' \<Rightarrow> Starved s'))"
      by (rule grows_bind [OF grows_enrich [OF P]]) (rule Cons.IH)
    then show ?thesis using True by simp
  qed
qed

lemma enrich_created_at: "enrich e t s = Ok r s' \<Longrightarrow> row_created_at r = created_at t"
  by (auto simp: enrich_def split: res.splits)

lemma collect_rows_inW:
  "collect e w ts rows lt s = Ok (rows', lt') s' \<Longrightarrow> list_all (inW e w) rows \<Longrightarrow>
   list_all (inW e w) rows'"
proof (induction ts arbitrary: rows lt s)
  case Nil
  then show ?case by simp
next
  case (Cons t ts)
  show ?case
  proof (cases "in_window w (createdTs e (created_at t))")
    case False
    then show ?thesis using Cons by simp
  next
    case True
    then obtain r s1 where en: "enrich e t s = Ok r s1"
      and rest: "collect e w ts (rows @ [r]) (Some (ticket_id t)) s1 = Ok (rows', lt') s'"
      using Cons.prems(1) by (auto split: res.splits)
    have "inW e w r" using True enrich_created_at [OF en] by (simp add: inW_def)
    then show ?thesis using Cons.IH [OF rest] Cons.prems(2) by simp
  qed
qed

lemma grows_append_rows:
  assumes "loop_events e w P" "list_all (inW e w) rows"
  shows "grows P s (world_of (append_rows e rows s))"
  using assms unfolding append_rows_def
  by (auto intro!: grows_call simp: loop_events_def)

lemma grows_log:
  assumes "\<And>r b. P (AppendLog r, b)"
  shows "grows P s (world_of (log e w st cp f sv lt s))"
  using assms unfolding log_def Let_def
  by (auto intro!: grows_call)

lemma grows_update_state:
  assumes "loop_events e w P"
  shows "grows P s (world_of (call e (UpdateState c) (update_state c) s))"
  using assms by (auto intro!: grows_call simp: loop_events_def update_state_def)

lemma grows_process_page:
  assumes P: "loop_events e w P"
  shows "grows P s (world_of (process_page e w data l s))"
  unfolding process_page_def Let_def
  apply (rule grows_bind)
   apply (rule grows_collect [OF loop_events_lookup_free [OF P]])
  apply (clarsimp simp del: world_of.simps)
  apply (rule grows_bind)
   apply (rule grows_append_rows [OF P])
   apply (erule collect_rows_inW, simp)
  apply (rule grows_bind)
   apply (rule grows_update_state [OF P])
  apply (rule grows_bind)
   apply (rule grows_log)
  using P apply (simp add: loop_events_def)
  apply simp
  done

lemma grows_page_loop:
  "loop_events e w P \<Longrightarrow> grows P s (world_of (page_loop e w ps nextUrl l s))"
proof (induction e w ps nextUrl l s rule: page_loop.induct)
  case (1 e w ps l s)
  then show ?case by simp
next
  case (2 e w nextUrl l s)
  then show ?case by simp
next
  case (3 e w p ps nextUrl l s)
  note P = "3.prems"
  have f: "grows P s (world_of (fetch_json (FetchPage nextUrl) p s))"
    using P by (intro grows_fetch_json) (simp_all add: loop_events_def)
  show ?case
    apply (simp only: page_loop.simps)
    apply (rule grows_bind [OF f])
    apply (rule grows_bind [OF grows_process_page [OF P]])
    apply (auto intro: "3.IH" P)
    done
qed

lemma grows_share:
  "final_events P \<Longrightarrow> grows P s (world_of (share e exportId recipients s))"
proof (induction recipients arbitrary: s)
  case Nil
  then show ?case by simp
next
  case (Cons email rest)
  have c: "grows P s (world_of (call e (CreatePermission exportId email)
             (\<lambda>s. s\<lparr>files := (files s)[exportId :=
                (files s ! exportId)\<lparr>permissions := permissions (files s ! exportId) @ [email]\<rparr>]\<rparr>) s))"
    using Cons.prems by (intro grows_call) (simp_all add: final_events_def)
  show ?case
    apply (simp only: share.simps)
    apply (rule grows_bind [OF c])
    apply (rule Cons.IH [OF Cons.prems])
    done
qed

lemma grows_send_link:
  "final_events P \<Longrightarrow> grows P s (world_of (send_link e w recipients exportId s))"
  unfolding send_link_def Let_def
  by (auto intro!: grows_call simp: final_events_def)

lemma grows_cleanup:
  assumes P: "final_events P"
  shows "grows P s (world_of (cleanup e w l s))"
  unfolding cleanup_def
  apply (rule grows_bind)
   apply (rule grows_call)
  using P apply (simp_all add: final_events_def clear_state_def)
  apply (rule grows_bind)
   apply (rule grows_call)
     apply simp_all
  apply (rule grows_log)
  apply simp
  done

lemma grows_finalize:
  assumes P: "final_events P"
  shows "grows P s (world_of (finalize e w recipients l s))"
proof -
  have c: "\<And>rq f s. P (rq, True) \<Longrightarrow> P (rq, False) \<Longrightarrow> (\<And>x. trace (f x) = trace x) \<Longrightarrow>
             grows P s (world_of (call e rq f s))"
    by (intro grows_call)
  show ?thesis
    unfolding finalize_def Let_def
    apply (rule grows_bind)
     apply (rule c)
    using P apply (simp_all add: final_events_def del: world_of.simps)
    apply (rule grows_bind)
     apply (rule c; simp)
    apply (rule grows_bind)
     apply (rule c; simp)
    apply (rule grows_bind)
     apply (rule grows_share [OF P])
    apply (rule grows_bind)
     apply (rule grows_send_link [OF P])
    apply (rule grows_cleanup [OF P])
    done
qed

lemma grows_run:
  assumes L: "loop_events e w P" and F: "final_events P" and G: "\<And>b. P (GetState, b)"
  shows "grows P s (world_of (run e w ps s))"
  unfolding run_def Let_def
  apply (rule grows_bind)
   apply (rule grows_call)
     apply (simp_all add: G del: world_of.simps)
  apply (rule grows_bind)
   apply (rule grows_page_loop [OF L])
  apply (rule grows_finalize [OF F])
  done

lemma grows_main:
  assumes L: "loop_events e w P" and F: "final_events P" and G: "\<And>b. P (GetState, b)"
  shows "grows P s (snd (main e w ps s))"
proof (cases "run e w ps s")
  case (Threw m s')
  have l: "\<And>r b. P (AppendLog r, b)" using F by (simp add: final_events_def)
  have "grows P s s'" using grows_run [OF L F G, of s ps] Threw by simp
  from grows_trans [OF this grows_log [of P, OF l]]
  show ?thesis using Threw by (simp add: main_def)
qed (use grows_run [OF L F G, of s ps] in \<open>simp_all add: main_def\<close>)

lemma grows_fresh_reset:
  assumes F: "final_events P" and C: "\<And>b. P (ClearLogs, b)"
  shows "grows P s (world_of (fresh_reset e isFreshRun s))"
proof (cases isFreshRun)
  case False
  then show ?thesis by (simp add: fresh_reset_def)
next
  case True
  have 1: "grows P s (world_of (call e ClearLogs (\<lambda>s. s\<lparr>Logs := []\<rparr>) s))"
    by (rule grows_call) (simp_all add: C)
  have "grows P s (world_of (case call e ClearLogs (\<lambda>s. s\<lparr>Logs := []\<rparr>) s of
            Ok u s1 \<Rightarrow> call e ClearRaw (\<lambda>s. s\<lparr>Tickets_Raw := []\<rparr>) s1
          | Threw m s1 \<Rightarrow> Threw m s1 | Starved s1 \<Rightarrow> Starved s1))"
    using F by (intro grows_bind [OF 1] grows_call) (simp_all add: final_events_def)
  then show ?thesis using True by (simp add: fresh_reset_def)
qed

lemma grows_run_batch:
  assumes L: "loop_events e w P" and F: "final_events P" and G: "\<And>b. P (GetState, b)"
    and C: "\<And>b. P (ClearLogs, b)"
  shows "grows P s (world_of (run_batch e w ps s))"
  unfolding run_batch_def Let_def
  apply (rule grows_bind)
   apply (rule grows_call)
     apply (simp_all add: G del: world_of.simps)
  apply (rule grows_bind)
   apply (rule grows_fresh_reset [OF F C])
  apply (rule grows_bind)
   apply (rule grows_page_loop [OF L])
  apply (simp add: grows_finalize [OF F])
  done

lemma staged_ok_events:
  "loop_events e w (staged_ok e w)" "final_events (staged_ok e w)" "staged_ok e w (GetState, b)"
  "staged_ok e w (ClearLogs, b)"
  by (auto simp: loop_events_def final_events_def staged_ok_def)

lemma appended_staged_ok:
  "list_all (staged_ok e w) evs \<Longrightarrow> r \<in> set (appended evs) \<Longrightarrow> inW e w r"
  by (induction evs rule: appended.induct) (auto simp: staged_ok_def list_all_iff)

lemma in_window_iff:
  "in_window w ts = (\<exists>c. ts = Some c \<and> startTimestamp w \<le> c \<and> c < endTimestamp w)"
  by (cases ts) (auto simp: in_window_def js_ge_def js_lt_def)

section \<open>The body digest\<close>

lemma join_Cons: "join s (x # xs) = x @ (if xs = [] then [] else s @ join s xs)"
  by (cases xs) simp_all

lemma formattedComments_spec: "formattedComments t cs = digest_spec (requester_id t) cs"
  by (induction cs) (simp_all add: formattedComments_def role_def join_Cons)

lemma digest_spec_filter: "digest_spec rid (filter is_public cs) = digest_spec rid cs"
  by (induction cs) simp_all

lemma enrich_Ok_digest:
  assumes "enrich e t s = Ok r s'"
  shows "\<exists>cd. comments_of e (ticket_id t) = Json cd \<and>
          body_digest r = formattedComments t (case cd of None \<Rightarrow> [] | Some cs \<Rightarrow> cs)"
  using assms
  by (auto simp: enrich_def fetch_json_def split: res.splits fetched.splits)

lemma enrich_ticketA:
  "enrich env0 ticketA world0 =
     Ok rowA (issue (FetchComments 101) True (issue (FetchUser (Id 7)) True world0))"
  by (simp add: enrich_def requesterEmail_def fetch_json_def env0_def ticketA_def rowA_def
      or_NA_def or_empty_def formattedComments_def role_def thread_def)

text \<open>
  C6. The digest column of an enriched row is the digest of the specification over the
  comments the lookup returned: only the public ones, each labelled Requester when its
  author is the ticket's requester and Agent otherwise, joined by the separator in
  upstream order. Dropping the non-public comments beforehand gives the same digest, so
  none of them contributes to it.
\<close>

theorem body_digest_public_labelled_in_order:
  assumes "enrich e t s = Ok r s'"
    and "comments_of e (ticket_id t) = Json (Some cs)"
  shows "body_digest r = digest_spec (requester_id t) cs \<and>
         body_digest r = digest_spec (requester_id t) (filter is_public cs)"
proof -
  from enrich_Ok_digest [OF assms(1)] assms(2)
  have "body_digest r = formattedComments t cs" by auto
  then show ?thesis
    by (simp add: formattedComments_spec digest_spec_filter)
qed

theorem body_digest_public_labelled_in_order_witness:
  "enrich env0 ticketA world0 =
     Ok rowA (issue (FetchComments 101) True (issue (FetchUser (Id 7)) True world0)) \<and>
   comments_of env0 (ticket_id ticketA) = Json (Some thread) \<and>
   body_digest rowA = digest_spec (Id 7) thread \<and>
   body_digest rowA = ''**Requester:** Help'' @ sep @ ''**Agent:** On it''"
proof -
  have c: "comments_of env0 (ticket_id ticketA) = Json (Some thread)"
    by (simp add: env0_def)
  from body_digest_public_labelled_in_order [OF enrich_ticketA c]
  have "body_digest rowA = digest_spec (requester_id ticketA) thread" by simp
  then show ?thesis
    using enrich_ticketA c by (simp add: ticketA_def rowA_def)
qed

section \<open>The window predicate\<close>

lemmas script_defs =
  main_def run_def call_def fetch_json_def process_page_def enrich_def requesterEmail_def
  append_rows_def log_def finalize_def cleanup_def send_link_def RECIPIENTS_def
  get_checkpoint_def update_state_def clear_state_def set_row2_def row2_def since_def
  in_window_def js_ge_def js_lt_def createdTs_def cell_of_num_def or_NA_def or_empty_def
  formattedComments_def role_def Let_def

lemmas input_defs =
  calendar_def thread_def env0_def world0_def dec2025_def pageAB_def ticketA_def ticketB_def
  rowA_def

lemma main_pageAB_appended:
  "appended (since world0 (snd (main env0 dec2025 [Json pageAB] world0))) = [rowA]"
  by (simp add: script_defs input_defs)

text \<open>
  C1, on \<open>run\<close> and on the batch script. Whatever the window, the feed responses and
  the failures, every row that a completed append of one invocation put into the staging
  sheet has a creation time, in whole seconds, from the start of the window up to but
  excluding its end. A ticket created exactly at the end is skipped; one created exactly
  at the start is enriched and kept.
\<close>

theorem run_stages_only_rows_in_window:
  "(\<forall>r \<in> set (appended (since s (snd (main e w ps s)))).
      \<exists>c. createdTs e (row_created_at r) = Some c \<and> startTimestamp w \<le> c \<and> c < endTimestamp w) \<and>
   (\<forall>r \<in> set (appended (since s (world_of (run_batch e w ps s)))).
      \<exists>c. createdTs e (row_created_at r) = Some c \<and> startTimestamp w \<le> c \<and> c < endTimestamp w) \<and>
   (createdTs e (created_at t) = Some (endTimestamp w) \<longrightarrow>
      collect e w (t # ts) rows lt s = collect e w ts rows lt s) \<and>
   (createdTs e (created_at t) = Some (startTimestamp w) \<and> startTimestamp w < endTimestamp w \<longrightarrow>
      collect e w (t # ts) rows lt s =
        (case enrich e t s of
           Ok r s' \<Rightarrow> collect e w ts (rows @ [r]) (Some (ticket_id t)) s'
         | Threw m s' \<Rightarrow> Threw m s'
         | Starved s' \<Rightarrow> Starved s'))"
proof (intro conjI ballI impI)
  fix r
  assume "r \<in> set (appended (since s (snd (main e w ps s))))"
  with grows_since [OF grows_main [OF staged_ok_events(1-3)]]
  have "inW e w r" by (rule appended_staged_ok)
  then show "\<exists>c. createdTs e (row_created_at r) = Some c \<and> startTimestamp w \<le> c \<and> c < endTimestamp w"
    by (simp add: inW_def in_window_iff)
next
  fix r
  assume "r \<in> set (appended (since s (world_of (run_batch e w ps s))))"
  with grows_since [OF grows_run_batch [OF staged_ok_events]]
  have "inW e w r" by (rule appended_staged_ok)
  then show "\<exists>c. createdTs e (row_created_at r) = Some c \<and> startTimestamp w \<le> c \<and> c < endTimestamp w"
    by (simp add: inW_def in_window_iff)
next
  assume "createdTs e (created_at t) = Some (endTimestamp w)"
  then show "collect e w (t # ts) rows lt s = collect e w ts rows lt s"
    by (simp add: in_window_iff)
next
  assume "createdTs e (created_at t) = Some (startTimestamp w) \<and> startTimestamp w < endTimestamp w"
  then show "collect e w (t # ts) rows lt s =
        (case enrich e t s of
           Ok r s' \<Rightarrow> collect e w ts (rows @ [r]) (Some (ticket_id t)) s'
         | Threw m s' \<Rightarrow> Threw m s'
         | Starved s' \<Rightarrow> Starved s')"
    by (simp add: in_window_iff)
qed

theorem run_stages_only_rows_in_window_witness:
  "appended (since world0 (snd (main env0 dec2025 [Json pageAB] world0))) = [rowA] \<and>
   createdTs env0 (row_created_at rowA) = Some 1764547205 \<and>
   startTimestamp dec2025 \<le> 1764547205 \<and> 1764547205 < endTimestamp dec2025 \<and>
   createdTs env0 (created_at ticketB) = Some (endTimestamp dec2025) \<and>
   collect env0 dec2025 [ticketB] [] None world0 = Ok ([], None) world0 \<and>
   createdTs env0 (created_at ticketFirst) = Some (startTimestamp dec2025) \<and>
   collect env0 dec2025 [ticketFirst] [] None world0 =
     Ok ([rowFirst], Some 100) (issue (FetchComments 100) True world0)"
proof -
  note inst = run_stages_only_rows_in_window
    [of world0 env0 dec2025 "[Json pageAB]" ticketB "[]" "[]" None]
  note inst' = run_stages_only_rows_in_window
    [of world0 env0 dec2025 "[Json pageAB]" ticketFirst "[]" "[]" None]
  have a: "\<exists>c. createdTs env0 (row_created_at rowA) = Some c \<and>
             startTimestamp dec2025 \<le> c \<and> c < endTimestamp dec2025"
    using inst main_pageAB_appended by simp
  have tb: "createdTs env0 (created_at ticketB) = Some (endTimestamp dec2025)"
    by (simp add: script_defs input_defs)
  have b: "collect env0 dec2025 [ticketB] [] None world0 = Ok ([], None) world0"
    using inst tb by simp
  have tf: "createdTs env0 (created_at ticketFirst) = Some (startTimestamp dec2025)"
    by (simp add: script_defs input_defs ticketFirst_def)
  have ef: "enrich env0 ticketFirst world0 = Ok rowFirst (issue (FetchComments 100) True world0)"
    by (simp add: script_defs input_defs ticketFirst_def rowFirst_def)
  have c: "collect env0 dec2025 [ticketFirst] [] None world0 =
     Ok ([rowFirst], Some 100) (issue (FetchComments 100) True world0)"
    using inst' tf ef by (simp add: dec2025_def ticketFirst_def)
  have ts: "createdTs env0 (row_created_at rowA) = Some 1764547205"
    by (simp add: script_defs input_defs)
  from a b c tb tf ts main_pageAB_appended show ?thesis
    by (simp add: dec2025_def)
qed

text \<open>
  The single-shot handler, whose export is the one of December 2025, applies no window
  test: it stages every ticket of the page it fetched. Here a ticket created one second
  before December 2025 and one created at the very end of it both go into
  \<open>tickets.json\<close>.
\<close>

theorem handler_stages_tickets_outside_window:
  "handler True feedOld None tmp0 =
     (Progress 2 2,
      \<lparr>checkpoint_json = Some (Some 1767225700), tickets_json = Some [ticketOld, ticketB],
       december_export = None, sent = []\<rparr>) \<and>
   createdTs env0 (created_at ticketOld) = Some (startTimestamp dec2025 - 1) \<and>
   \<not> in_window dec2025 (createdTs env0 (created_at ticketOld)) \<and>
   createdTs env0 (created_at ticketB) = Some (endTimestamp dec2025) \<and>
   \<not> in_window dec2025 (createdTs env0 (created_at ticketB))"
  by (simp add: handler_def feedOld_def tmp0_def pageOld_def ticketOld_def script_defs input_defs)

section \<open>Pages without tickets, tickets without a date\<close>

lemma collect_skip:
  "\<not> in_window w (createdTs e (created_at t)) \<Longrightarrow>
   collect e w (ts1 @ t # ts2) rows lt s = collect e w (ts1 @ ts2) rows lt s"
  by (induction ts1 arbitrary: rows lt s) (auto split: res.splits)

lemma call_ok: "rejects e (length (trace s)) = None \<Longrightarrow> call e rq f s = Ok () (f (issue rq True s))"
  by (simp add: call_def)


text \<open>
  C10. A response without a \<open>tickets\<close> array is processed exactly as one with an empty
  array, and when no store call rejects it resolves with the staging sheet untouched. A
  ticket whose \<open>created_at\<close> does not parse meets neither bound of the window test, and
  the ticket loop behaves as if the ticket were not in the page: same rows, same last
  ticket id, same calls, no rejection of its own.
\<close>

theorem missing_tickets_and_bad_dates_are_skipped:
  "(tickets data = None \<longrightarrow>
      process_page e w data l s = process_page e w (data\<lparr>tickets := Some []\<rparr>) l s) \<and>
   (tickets data = None \<and> (\<forall>n. rejects e n = None) \<longrightarrow>
      (\<exists>s'. process_page e w data l s = Ok (l\<lparr>checkpoint := end_time data\<rparr>) s' \<and>
            Tickets_Raw s' = Tickets_Raw s)) \<and>
   (date_ms e (created_at t) = None \<longrightarrow>
      \<not> js_ge (createdTs e (created_at t)) (startTimestamp w) \<and>
      \<not> js_lt (createdTs e (created_at t)) (endTimestamp w) \<and>
      collect e w (ts1 @ t # ts2) rows lt s = collect e w (ts1 @ ts2) rows lt s)"
proof (intro conjI impI)
  assume "tickets data = None"
  then show "process_page e w data l s = process_page e w (data\<lparr>tickets := Some []\<rparr>) l s"
    by (simp add: process_page_def)
next
  assume a: "tickets data = None \<and> (\<forall>n. rejects e n = None)"
  then show "\<exists>s'. process_page e w data l s = Ok (l\<lparr>checkpoint := end_time data\<rparr>) s' \<and>
            Tickets_Raw s' = Tickets_Raw s"
    by (simp add: process_page_def append_rows_def log_def call_ok update_state_def Let_def)
next
  assume d: "date_ms e (created_at t) = None"
  then show "\<not> js_ge (createdTs e (created_at t)) (startTimestamp w)"
    by (simp add: createdTs_def js_ge_def)
  from d show "\<not> js_lt (createdTs e (created_at t)) (endTimestamp w)"
    by (simp add: createdTs_def js_lt_def)
  from d have "\<not> in_window w (createdTs e (created_at t))"
    by (simp add: createdTs_def in_window_def js_ge_def)
  then show "collect e w (ts1 @ t # ts2) rows lt s = collect e w (ts1 @ ts2) rows lt s"
    by (rule collect_skip)
qed

theorem missing_tickets_and_bad_dates_are_skipped_witness:
  "tickets pageNone = None \<and> (\<forall>n. rejects env0 n = None) \<and>
   process_page env0 dec2025 pageNone locals0 world0 =
     process_page env0 dec2025 (pageNone\<lparr>tickets := Some []\<rparr>) locals0 world0 \<and>
   (\<exists>s'. process_page env0 dec2025 pageNone locals0 world0 =
           Ok (locals0\<lparr>checkpoint := end_time pageNone\<rparr>) s' \<and>
         Tickets_Raw s' = Tickets_Raw world0) \<and>
   date_ms env0 (created_at ticketBad) = None \<and>
   collect env0 dec2025 [ticketA, ticketBad] [] None world0 =
     collect env0 dec2025 [ticketA] [] None world0 \<and>
   collect env0 dec2025 [ticketA, ticketBad] [] None world0 =
     Ok ([rowA], Some 101) (issue (FetchComments 101) True (issue (FetchUser (Id 7)) True world0))"
proof -
  note inst = missing_tickets_and_bad_dates_are_skipped
    [of pageNone env0 dec2025 locals0 world0 ticketBad "[ticketA]" "[]" "[]" None]
  have n: "tickets pageNone = None" by (simp add: pageNone_def)
  have r: "\<forall>n. rejects env0 n = None" by (simp add: env0_def)
  have d: "date_ms env0 (created_at ticketBad) = None"
    by (simp add: env0_def calendar_def ticketBad_def)
  have 1: "process_page env0 dec2025 pageNone locals0 world0 =
     process_page env0 dec2025 (pageNone\<lparr>tickets := Some []\<rparr>) locals0 world0"
    using inst n by simp
  have 2: "\<exists>s'. process_page env0 dec2025 pageNone locals0 world0 =
           Ok (locals0\<lparr>checkpoint := end_time pageNone\<rparr>) s' \<and>
         Tickets_Raw s' = Tickets_Raw world0"
    using inst n r by blast
  have 3: "collect env0 dec2025 [ticketA, ticketBad] [] None world0 =
     collect env0 dec2025 [ticketA] [] None world0"
    using inst d by simp
  have 4: "collect env0 dec2025 [ticketA] [] None world0 =
     Ok ([rowA], Some 101) (issue (FetchComments 101) True (issue (FetchUser (Id 7)) True world0))"
    using enrich_ticketA by (simp add: script_defs input_defs)
  from n r d 1 2 3 4 show ?thesis by simp
qed

section \<open>When the finalizer is entered\<close>






lemma finalizing_append [simp]: "finalizing (xs @ ys) = (finalizing xs \<or> finalizing ys)"
  by (induction xs rule: finalizing.induct) simp_all










section \<open>The finalizer without recipients\<close>

lemma split_comma_not_Nil [simp]: "split_comma v \<noteq> []"
  by (induction v) (auto split: list.splits)

lemma RECIPIENTS_empty_iff:
  "RECIPIENTS e = [] \<longleftrightarrow> EMAIL_RECIPIENTS e = None \<or> EMAIL_RECIPIENTS e = Some []"
  by (auto simp: RECIPIENTS_def split: option.splits)

text \<open>
  C9. With an empty \<open>RECIPIENTS\<close> and no rejected call, the finalizer resolves and has
  done exactly this: created the workbook named after the month, filled it with the
  header and the staging rows, blanked \<open>State!A2:B2\<close>, emptied \<open>Tickets_Raw\<close> and
  logged \<open>Export Complete\<close>. No permission was created and no mail was sent: the
  workbook's permissions and the outbox are as before, and the six calls in the trace are
  all the calls there were.
\<close>

theorem finalizer_with_no_recipients:
  assumes "RECIPIENTS e = []" and "\<forall>n. rejects e n = None"
  shows "finalize e w (RECIPIENTS e) l s =
     Ok ()
       (s\<lparr>files := files s @
            [\<lparr>name = ''Zendesk Export - '' @ monthStr w,
              contents = Header report_header # map Data (Tickets_Raw s),
              permissions = []\<rparr>],
          State_sheet := set_row2 ([], None) (State_sheet s),
          Tickets_Raw := [],
          Logs := Logs s @
            [\<lparr>log_month = monthStr w, log_checkpoint = Text ''FINAL'',
              log_fetched = totalFetched l, log_saved = totalSaved l,
              log_last = Text ''DONE'', log_status = ''Export Complete''\<rparr>],
          trace := trace s @
            [(CreateFile (''Zendesk Export - '' @ monthStr w), True),
             (GetRaw, True),
             (UpdateReport (length (files s))
                (Header report_header # map Data (Tickets_Raw s)), True),
             (ClearState, True),
             (ClearRaw, True),
             (AppendLog
                \<lparr>log_month = monthStr w, log_checkpoint = Text ''FINAL'',
                 log_fetched = totalFetched l, log_saved = totalSaved l,
                 log_last = Text ''DONE'', log_status = ''Export Complete''\<rparr>, True)]\<rparr>)"
  using assms
  by (simp add: finalize_def send_link_def cleanup_def log_def call_def clear_state_def
      issue_def Let_def)

theorem finalizer_with_no_recipients_witness:
  "RECIPIENTS env0 = [] \<and> (\<forall>n. rejects env0 n = None) \<and>
   finalize env0 dec2025 (RECIPIENTS env0) localsA worldA =
     Ok ()
       \<lparr>State_sheet = [(''key'', None), ([], None)],
        Tickets_Raw = [],
        Logs = [\<lparr>log_month = ''2025-12'', log_checkpoint = Text ''FINAL'', log_fetched = 2,
                 log_saved = 1, log_last = Text ''DONE'', log_status = ''Export Complete''\<rparr>],
        files = [\<lparr>name = ''Zendesk Export - 2025-12'',
                  contents = [Header report_header, Data rowA], permissions = []\<rparr>],
        outbox = [],
        trace = [(CreateFile ''Zendesk Export - 2025-12'', True), (GetRaw, True),
                 (UpdateReport 0 [Header report_header, Data rowA], True),
                 (ClearState, True), (ClearRaw, True),
                 (AppendLog
                    \<lparr>log_month = ''2025-12'', log_checkpoint = Text ''FINAL'', log_fetched = 2,
                     log_saved = 1, log_last = Text ''DONE'', log_status = ''Export Complete''\<rparr>,
                  True)]\<rparr>"
proof -
  have r: "RECIPIENTS env0 = []" by (simp add: RECIPIENTS_def env0_def)
  have n: "\<forall>n. rejects env0 n = None" by (simp add: env0_def)
  from finalizer_with_no_recipients [OF r n, of dec2025 localsA worldA] r n
  show ?thesis
    by (simp add: worldA_def localsA_def dec2025_def set_row2_def)
qed

section \<open>The key of the checkpoint\<close>

lemma rel_bind:
  assumes "\<And>a b c. R a b \<Longrightarrow> R b c \<Longrightarrow> R a c"
    and "R s (world_of r)"
    and "\<And>a s1. r = Ok a s1 \<Longrightarrow> R s1 (world_of (k a s1))"
  shows "R s (world_of (case r of Ok a s1 \<Rightarrow> k a s1 | Threw m s1 \<Rightarrow> Threw m s1
                          | Starved s1 \<Rightarrow> Starved s1))"
  using assms by (cases r) auto

lemma same_store_refl [simp]: "same_store s s"
  by (simp add: same_store_def)

lemma same_store_trans: "same_store a b \<Longrightarrow> same_store b c \<Longrightarrow> same_store a c"
  by (simp add: same_store_def)

lemma same_store_fetch_json: "same_store s (world_of (fetch_json rq r s))"
  by (simp add: fetch_json_def same_store_def split: fetched.splits)

lemma same_store_requesterEmail: "same_store s (world_of (requesterEmail e t s))"
  using same_store_fetch_json [of s "FetchUser (requester_id t)" "users e (requester_id t)"]
  by (auto simp: requesterEmail_def split: res.splits)

lemma same_store_enrich: "same_store s (world_of (enrich e t s))"
  unfolding enrich_def
  apply (rule rel_bind [of same_store, OF same_store_trans same_store_requesterEmail], assumption+)
  apply (rule rel_bind [of same_store, OF same_store_trans same_store_fetch_json], assumption+)
  apply simp
  done

lemma same_store_collect: "same_store s (world_of (collect e w ts rows lt s))"
proof (induction ts arbitrary: rows lt s)
  case Nil
  then show ?case by simp
next
  case (Cons t ts)
  have "same_store s (world_of (case enrich e t s of
              Ok r s' \<Rightarrow> collect e w ts (rows @ [r]) (Some (ticket_id t)) s'
            | Threw m s' \<Rightarrow> Threw m s' | Starved s' \<Rightarrow> Starved s'))"
    by (rule rel_bind [of same_store, OF same_store_trans same_store_enrich], assumption+)
       (rule Cons.IH)
  then show ?case using Cons.IH by simp
qed

lemma collect_Ok_store:
  "collect e w ts rows lt s = Ok a s1 \<Longrightarrow> same_store s s1"
  using same_store_collect [of s e w ts rows lt] by simp

lemma foldl_no_key:
  "\<forall>r \<in> set rows. fst r \<noteq> k \<Longrightarrow> foldl (\<lambda>cp r. if fst r = k then snd r else cp) cp rows = cp"
  by (induction rows arbitrary: cp) simp_all

lemma get_checkpoint_set_row2:
  assumes "\<forall>r \<in> set (drop 2 rows). fst r \<noteq> ''checkpoint''"
  shows "get_checkpoint w (set_row2 (''checkpoint'', v) rows) = v"
proof (cases rows)
  case Nil
  then show ?thesis by (simp add: get_checkpoint_def set_row2_def)
next
  case (Cons a rest)
  show ?thesis
  proof (cases rest)
    case Nil
    then show ?thesis using Cons by (simp add: get_checkpoint_def set_row2_def)
  next
    case (Cons b more)
    then have "\<forall>r \<in> set more. fst r \<noteq> ''checkpoint''"
      using assms \<open>rows = a # rest\<close> by simp
    then show ?thesis
      using Cons \<open>rows = a # rest\<close> by (simp add: get_checkpoint_def set_row2_def foldl_no_key)
  qed
qed

lemma process_page_Ok_State:
  assumes "process_page e w d l s = Ok l' s'"
  shows "State_sheet s' = State_sheet (update_state (end_time d) s) \<and> checkpoint l' = end_time d"
proof -
  let ?ts = "case tickets d of None \<Rightarrow> [] | Some ts \<Rightarrow> ts"
  obtain rows lt s1 where c: "collect e w ?ts [] (lastTicketID l) s = Ok (rows, lt) s1"
    using assms by (auto simp: process_page_def Let_def split: res.splits)
  have "State_sheet s1 = State_sheet s" using collect_Ok_store [OF c] by (simp add: same_store_def)
  then show ?thesis
    using assms c
    by (auto simp: process_page_def append_rows_def log_def call_def update_state_def Let_def
        split: res.splits option.splits if_splits)
qed

text \<open>
  C4, as the code has it. The page loop of a run for window \<open>w\<close> commits the cursor
  under the fixed key \<open>checkpoint\<close> in \<open>State!A2:B2\<close>; a run for any window \<open>w'\<close>
  reads that cursor back and asks the feed for it first. No window id takes part in
  either.
\<close>

theorem committed_cursor_adopted_by_any_window:
  assumes "process_page e w d l s = Ok l' s'"
    and "end_time d = Some c"
    and "\<forall>r \<in> set (drop 2 (State_sheet s)). fst r \<noteq> ''checkpoint''"
    and "rejects e' (length (trace s')) = None"
  shows "get_checkpoint w' (State_sheet s') = Some c \<and>
         since s' (world_of (run e' w' [Throws m] s')) =
           [(GetState, True), (FetchPage (Incremental (Some c)), False)]"
proof -
  have "State_sheet s' = set_row2 (''checkpoint'', Some c) (State_sheet s)"
    using process_page_Ok_State [OF assms(1)] assms(2) by (simp add: update_state_def)
  then have g: "get_checkpoint w' (State_sheet s') = Some c"
    using get_checkpoint_set_row2 [OF assms(3)] by simp
  then show ?thesis
    using assms(4) by (simp add: run_def call_def fetch_json_def since_def Let_def)
qed

theorem committed_cursor_adopted_by_any_window_witness:
  "end_time pageNov = Some 1762000000 \<and>
   rejects env0 (length (trace (world_of (process_page env0 nov2025 pageNov locals0 world0)))) = None \<and>
   startTimestamp dec2025 = 1764547200 \<and>
   get_checkpoint dec2025
     (State_sheet (world_of (process_page env0 nov2025 pageNov locals0 world0))) = Some 1762000000"
proof -
  obtain l' s' where p: "process_page env0 nov2025 pageNov locals0 world0 = Ok l' s'"
    by (simp add: script_defs input_defs pageNov_def nov2025_def locals0_def)
  have e: "end_time pageNov = Some 1762000000" by (simp add: pageNov_def)
  have k: "\<forall>r \<in> set (drop 2 (State_sheet world0)). fst r \<noteq> ''checkpoint''"
    by (simp add: world0_def)
  have r: "rejects env0 (length (trace s')) = None" by (simp add: env0_def)
  from committed_cursor_adopted_by_any_window [OF p e k r, of dec2025]
  have "get_checkpoint dec2025 (State_sheet s') = Some 1762000000" by simp
  then show ?thesis using p e by (simp add: env0_def dec2025_def)
qed

text \<open>
  A run for November 2025 commits the cursor 1762000000 and dies on the next fetch. The
  run for December 2025 that follows starts from that cursor, which lies before its own
  window.
\<close>

theorem december_run_adopts_november_cursor:
  "get_checkpoint dec2025 (State_sheet worldNov) = Some 1762000000 \<and>
   startTimestamp dec2025 = 1764547200 \<and>
   take 2 (since worldNov (snd (main env0 dec2025 [Json pageAB] worldNov))) =
     [(GetState, True), (FetchPage (Incremental (Some 1762000000)), True)]"
  by (simp add: worldNov_def script_defs input_defs pageNov_def nov2025_def)

section \<open>Lookups that fail\<close>

lemma fetch_json_not_Starved: "fetch_json rq r s \<noteq> Starved s'"
  by (simp add: fetch_json_def split: fetched.splits)

lemma enrich_not_Starved: "enrich e t s \<noteq> Starved s'"
  by (auto simp: enrich_def requesterEmail_def fetch_json_def split: res.splits fetched.splits)

lemma collect_not_Starved: "collect e w ts rows lt s \<noteq> Starved s'"
  by (induction ts arbitrary: rows lt s) (auto simp: enrich_not_Starved split: res.splits)



lemma clean_Ok [simp]: "clean s (Ok a s)"
  by (simp add: clean_def)

lemma clean_Starved [simp]: "clean s (Starved s)"
  by (simp add: clean_def)





















section \<open>Commit after write\<close>

lemma tracks_refl [simp]: "tracks ids s ids s"
  by (simp add: tracks_def)

lemma tracks_trans: "tracks a s b s' \<Longrightarrow> tracks b s' c s'' \<Longrightarrow> tracks a s c s''"
  by (auto simp: tracks_def)

lemma tracks_issue: "commit_step (Some ids) (rq, b) = Some ids' \<Longrightarrow> tracks ids s ids' (issue rq b s)"
  by (simp add: tracks_def)

lemma tracks_same: "tracks ids s ids' s' \<Longrightarrow> trace s'' = trace s' \<Longrightarrow> tracks ids s ids' s''"
  by (simp add: tracks_def)

lemma tracks_call:
  assumes "\<And>b. commit_step (Some ids) (rq, b) = Some ids" "\<And>x. trace (f x) = trace x"
  shows "tracks ids s ids (world_of (call e rq f s))"
  using assms
  by (auto simp: call_def split: option.splits intro: tracks_issue tracks_same [OF tracks_issue])

lemma tracks_enrich:
  "case enrich e t s of
     Ok r s' \<Rightarrow> tracks ids s (ids @ [record_id r]) s'
   | Threw m s' \<Rightarrow> tracks ids s ids s'
   | Starved s' \<Rightarrow> True"
  by (auto simp: enrich_def requesterEmail_def fetch_json_def tracks_def
      split: res.splits fetched.splits)

lemma tracks_collect:
  "case collect e w ts rows lt s of
     Ok a s' \<Rightarrow> tracks (map record_id rows) s (map record_id (fst a)) s'
   | Threw m s' \<Rightarrow> \<exists>ids'. tracks (map record_id rows) s ids' s'
   | Starved s' \<Rightarrow> True"
proof (induction ts arbitrary: rows lt s)
  case Nil
  then show ?case by simp
next
  case (Cons t ts)
  show ?case
  proof (cases "in_window w (createdTs e (created_at t))")
    case False
    then show ?thesis using Cons.IH by simp
  next
    case True
    show ?thesis
    proof (cases "enrich e t s")
      case (Ok r s1)
      have 1: "tracks (map record_id rows) s (map record_id rows @ [record_id r]) s1"
        using tracks_enrich [where e=e and t=t and s=s and ids="map record_id rows"] Ok by simp
      show ?thesis
      proof (cases "collect e w ts (rows @ [r]) (Some (ticket_id t)) s1")
        case (Ok a s2)
        then have "tracks (map record_id rows @ [record_id r]) s1 (map record_id (fst a)) s2"
          using Cons.IH [where rows="rows @ [r]" and lt="Some (ticket_id t)" and s=s1] by simp
        from tracks_trans [OF 1 this] show ?thesis
          using True \<open>enrich e t s = Ok r s1\<close> Ok by simp
      next
        case (Threw m s2)
        then obtain ids' where "tracks (map record_id rows @ [record_id r]) s1 ids' s2"
          using Cons.IH [where rows="rows @ [r]" and lt="Some (ticket_id t)" and s=s1] by auto
        from tracks_trans [OF 1 this] show ?thesis
          using True \<open>enrich e t s = Ok r s1\<close> Threw by auto
      next
        case (Starved s2)
        then show ?thesis using True \<open>enrich e t s = Ok r s1\<close> by simp
      qed
    next
      case (Threw m s1)
      then show ?thesis
        using tracks_enrich [where e=e and t=t and s=s and ids="map record_id rows"] True by auto
    next
      case (Starved s1)
      then show ?thesis using True by simp
    qed
  qed
qed

lemma tracks_process_page:
  "case process_page e w d l s of
     Ok l' s' \<Rightarrow> tracks [] s [] s'
   | Threw m s' \<Rightarrow> \<exists>ids'. tracks [] s ids' s'
   | Starved s' \<Rightarrow> True"
proof -
  let ?ts = "case tickets d of None \<Rightarrow> [] | Some ts \<Rightarrow> ts"
  show ?thesis
  proof (cases "collect e w ?ts [] (lastTicketID l) s")
    case (Ok a s1)
    obtain rows lt where a: "a = (rows, lt)" by (cases a)
    have 1: "tracks [] s (map record_id rows) s1"
      using tracks_collect [where e=e and w=w and ts="?ts" and rows="[]" and lt="lastTicketID l" and s=s] Ok a by simp
    have 2: "case append_rows e rows s1 of
               Ok u s2 \<Rightarrow> tracks (map record_id rows) s1 [] s2
             | Threw m s2 \<Rightarrow> tracks (map record_id rows) s1 (map record_id rows) s2
             | Starved s2 \<Rightarrow> True"
      by (auto simp: append_rows_def call_def tracks_def split: option.splits)
    show ?thesis
    proof (cases "append_rows e rows s1")
      case (Ok u s2)
      note ap = this
      have 3: "tracks [] s [] s2" using tracks_trans [OF 1] 2 Ok by simp
      have 4: "tracks [] s2 [] (world_of (call e (UpdateState (end_time d)) (update_state (end_time d)) s2))"
        by (rule tracks_call) (simp_all add: update_state_def)
      show ?thesis
      proof (cases "call e (UpdateState (end_time d)) (update_state (end_time d)) s2")
        case (Ok u3 s3)
        have 5: "tracks [] s [] s3" using tracks_trans [OF 3 4] Ok by simp
        have 6: "tracks [] s3 [] (world_of (log e w ''Running'' (cell_of_num (end_time d))
                   (totalFetched l + length ?ts) (totalSaved l + length rows) (cell_of_num lt) s3))"
          unfolding log_def Let_def by (rule tracks_call) simp_all
        from tracks_trans [OF 5 6] show ?thesis
          using \<open>collect e w ?ts [] (lastTicketID l) s = Ok a s1\<close> a ap Ok
          by (auto simp: process_page_def Let_def split: res.splits)
      next
        case (Threw m s3)
        then show ?thesis
          using tracks_trans [OF 3 4] \<open>collect e w ?ts [] (lastTicketID l) s = Ok a s1\<close> a ap
          by (auto simp: process_page_def Let_def)
      next
        case (Starved s3)
        then show ?thesis by simp
      qed
    next
      case (Threw m s2)
      then show ?thesis
        using tracks_trans [OF 1] 2 \<open>collect e w ?ts [] (lastTicketID l) s = Ok a s1\<close> a
        by (auto simp: process_page_def Let_def)
    next
      case (Starved s2)
      then show ?thesis by (simp add: append_rows_def split: if_splits)
    qed
  next
    case (Threw m s1)
    then show ?thesis
      using tracks_collect [where e=e and w=w and ts="?ts" and rows="[]" and lt="lastTicketID l" and s=s]
      by (simp add: process_page_def Let_def)
  next
    case (Starved s1)
    then show ?thesis by (simp add: collect_not_Starved)
  qed
qed

lemma tracks_page_loop:
  "\<exists>ids'. tracks [] s ids' (world_of (page_loop e w ps nextUrl l s))"
proof (induction e w ps nextUrl l s rule: page_loop.induct)
  case (1 e w ps l s)
  show ?case by (auto intro: exI [of _ "[]"])
next
  case (2 e w nextUrl l s)
  show ?case by (auto intro: exI [of _ "[]"])
next
  case (3 e w p ps nextUrl l s)
  show ?case
  proof (cases p)
    case (Throws m)
    then show ?thesis by (auto simp: fetch_json_def tracks_def)
  next
    case (Json data)
    let ?s1 = "issue (FetchPage nextUrl) True s"
    have 1: "tracks [] s [] ?s1" by (rule tracks_issue) simp
    show ?thesis
    proof (cases "process_page e w data l ?s1")
      case (Ok l' s2)
      have 2: "tracks [] s [] s2"
        using tracks_trans [OF 1] tracks_process_page [where e=e and w=w and d=data and l=l and s="?s1"] Ok by simp
      show ?thesis
      proof (cases "end_of_stream data \<or> js_ge (checkpoint l') (endTimestamp w)")
        case True
        then show ?thesis using Json Ok 2 by (auto simp: fetch_json_def)
      next
        case False
        from "3.IH" [of data ?s1 l' s2] Json Ok False
        obtain ids' where "tracks [] s2 ids' (world_of (page_loop e w ps (next_page data) l' s2))"
          by (auto simp: fetch_json_def)
        from tracks_trans [OF 2 this] show ?thesis
          using Json Ok False by (auto simp: fetch_json_def)
      qed
    next
      case (Threw m s2)
      then obtain ids' where "tracks [] ?s1 ids' s2"
        using tracks_process_page [where e=e and w=w and d=data and l=l and s="?s1"] by auto
      from tracks_trans [OF 1 this] show ?thesis
        using Json Threw by (auto simp: fetch_json_def)
    next
      case (Starved s2)
      then show ?thesis
        using tracks_process_page [where e=e and w=w and d=data and l=l and s="?s1"] Json
        by (auto simp: process_page_def Let_def append_rows_def log_def collect_not_Starved
            split: res.splits prod.splits if_splits)
    qed
  qed
qed

lemma foldl_commit_neutral:
  "list_all commit_neutral evs \<Longrightarrow> foldl commit_step (Some ids) evs = Some ids"
  by (induction evs) (simp_all add: commit_neutral_def)

lemma tracks_neutral: "grows commit_neutral s s' \<Longrightarrow> tracks ids s ids s'"
  by (auto simp: grows_def tracks_def foldl_commit_neutral)

lemma commit_neutral_final: "final_events commit_neutral"
  by (simp add: final_events_def commit_neutral_def)

lemma tracks_run: "\<exists>ids'. tracks ids s ids' (world_of (run e w ps s))"
proof (cases "rejects e (length (trace s))")
  case (Some m)
  then show ?thesis by (auto simp: run_def call_def tracks_def)
next
  case None
  let ?s1 = "issue GetState True s"
  let ?cp = "get_checkpoint w (State_sheet ?s1)"
  let ?l = "\<lparr>checkpoint = ?cp, totalFetched = 0, totalSaved = 0, lastTicketID = None\<rparr>"
  have 1: "tracks ids s [] ?s1" by (rule tracks_issue) simp
  obtain ids' where 2: "tracks [] ?s1 ids' (world_of (page_loop e w ps (Some (Incremental ?cp)) ?l ?s1))"
    using tracks_page_loop by blast
  show ?thesis
  proof (cases "page_loop e w ps (Some (Incremental ?cp)) ?l ?s1")
    case (Ok l' s2)
    have "tracks ids' s2 ids' (world_of (finalize e w (RECIPIENTS e) l' s2))"
      by (rule tracks_neutral [OF grows_finalize [OF commit_neutral_final]])
    from tracks_trans [OF tracks_trans [OF 1] this] 2 Ok show ?thesis
      using None by (auto simp: run_def call_def Let_def)
  next
    case (Threw m s2)
    then show ?thesis
      using tracks_trans [OF 1] 2 None by (auto simp: run_def call_def Let_def)
  next
    case (Starved s2)
    then show ?thesis
      using tracks_trans [OF 1] 2 None by (auto simp: run_def call_def Let_def)
  qed
qed

lemma tracks_main: "\<exists>ids'. tracks ids s ids' (snd (main e w ps s))"
proof (cases "run e w ps s")
  case (Threw m s')
  obtain ids' where 1: "tracks ids s ids' s'" using tracks_run [of ids s e w ps] Threw by auto
  have "tracks ids' s' ids'
          (world_of (log e w (''ERROR: '' @ m) (Text ''UNKNOWN'') 0 0 (Text ''FAIL'') s'))"
    unfolding log_def Let_def by (rule tracks_call) simp_all
  from tracks_trans [OF 1 this] show ?thesis using Threw by (auto simp: main_def)
qed (use tracks_run [of ids s e w ps] in \<open>auto simp: main_def\<close>)

lemma tracks_since: "tracks ids s ids' s' \<Longrightarrow> foldl commit_step (Some ids) (since s s') = Some ids'"
  by (auto simp: tracks_def since_def)

text \<open>The check does refuse a checkpoint write issued while an enriched row is waiting.\<close>

lemma commit_step_refuses_early_write:
  "foldl commit_step (Some [])
     [(FetchPage u, True), (FetchComments 101, True), (UpdateState v, True)] = None"
  by simp

text \<open>
  C2. Along the trace of any invocation, with any feed and any failures, the checkpoint
  write is issued only when every row enriched for the current page is in the staging
  sheet through a completed append of exactly those rows. When the append of a page
  rejects, the page rejects there and then: the checkpoint cell and the staging sheet are
  as they were before the page.
\<close>

theorem checkpoint_committed_after_rows_persisted:
  "foldl commit_step (Some []) (since s (snd (main e w ps s))) \<noteq> None \<and>
   (collect e w (case tickets d of None \<Rightarrow> [] | Some ts \<Rightarrow> ts) [] (lastTicketID l) s =
      Ok (rows, lt) s1 \<and> rows \<noteq> [] \<and> rejects e (length (trace s1)) = Some m \<longrightarrow>
    process_page e w d l s = Threw m (issue (AppendRaw rows) False s1) \<and>
    same_store s (issue (AppendRaw rows) False s1))"
proof (intro conjI impI)
  obtain ids' where "tracks [] s ids' (snd (main e w ps s))"
    using tracks_main by blast
  then show "foldl commit_step (Some []) (since s (snd (main e w ps s))) \<noteq> None"
    by (simp add: tracks_since)
next
  let ?ts = "case tickets d of None \<Rightarrow> [] | Some ts \<Rightarrow> ts"
  assume a: "collect e w ?ts [] (lastTicketID l) s = Ok (rows, lt) s1 \<and> rows \<noteq> [] \<and>
             rejects e (length (trace s1)) = Some m"
  then show "process_page e w d l s = Threw m (issue (AppendRaw rows) False s1)"
    by (simp add: process_page_def append_rows_def call_def Let_def)
  from a have "same_store s s1" using collect_Ok_store by blast
  then show "same_store s (issue (AppendRaw rows) False s1)"
    by (simp add: same_store_def)
qed

lemma main_envAppend:
  "main envAppend dec2025 [Json pageAB] world0 =
     (Some 1,
      world0\<lparr>Logs := [error_row dec2025 ''quota exceeded''],
             trace := [(GetState, True),
                       (FetchPage (Incremental (Some 1764547200)), True),
                       (FetchUser (Id 7), True),
                       (FetchComments 101, True),
                       (AppendRaw [rowA], False),
                       (AppendLog (error_row dec2025 ''quota exceeded''), True)]\<rparr>)"
  by (simp add: script_defs input_defs envAppend_def error_row_def issue_def)

theorem checkpoint_committed_after_rows_persisted_witness:
  "foldl commit_step (Some []) (since world0 (snd (main envAppend dec2025 [Json pageAB] world0))) =
     Some [101] \<and>
   State_sheet (snd (main envAppend dec2025 [Json pageAB] world0)) = State_sheet world0 \<and>
   collect envAppend dec2025 [ticketA, ticketB] [] None (issue (FetchPage (Incremental (Some 1764547200))) True (issue GetState True world0)) =
     Ok ([rowA], Some 101)
       (issue (FetchComments 101) True (issue (FetchUser (Id 7)) True (issue (FetchPage (Incremental (Some 1764547200))) True (issue GetState True world0)))) \<and>
   rejects envAppend 3 = None \<and> rejects envAppend 4 = Some ''quota exceeded'' \<and>
   process_page envAppend dec2025 pageAB locals0 (issue (FetchPage (Incremental (Some 1764547200))) True (issue GetState True world0)) =
     Threw ''quota exceeded''
       (issue (AppendRaw [rowA]) False
          (issue (FetchComments 101) True (issue (FetchUser (Id 7)) True (issue (FetchPage (Incremental (Some 1764547200))) True (issue GetState True world0)))))"
proof -
  let ?s = "issue (FetchPage (Incremental (Some 1764547200))) True (issue GetState True world0)"
  let ?s1 = "issue (FetchComments 101) True (issue (FetchUser (Id 7)) True ?s)"
  note inst = checkpoint_committed_after_rows_persisted
    [of world0 envAppend dec2025 "[Json pageAB]" pageAB locals0 "[rowA]" "Some 101" ?s1
        "''quota exceeded''"]
  note inst' = checkpoint_committed_after_rows_persisted
    [of ?s envAppend dec2025 "[Json pageAB]" pageAB locals0 "[rowA]" "Some 101" ?s1
        "''quota exceeded''"]
  have 0: "foldl commit_step (Some []) (since world0 (snd (main envAppend dec2025 [Json pageAB] world0))) \<noteq> None"
    using inst by blast
  have 1: "foldl commit_step (Some []) (since world0 (snd (main envAppend dec2025 [Json pageAB] world0))) =
     Some [101]"
    unfolding main_envAppend by (simp add: since_def world0_def rowA_def)
  have c: "collect envAppend dec2025 [ticketA, ticketB] [] None ?s = Ok ([rowA], Some 101) ?s1"
    by (simp add: script_defs input_defs envAppend_def)
  have r: "rejects envAppend (length (trace ?s1)) = Some ''quota exceeded''"
    by (simp add: envAppend_def world0_def)
  have p: "process_page envAppend dec2025 pageAB locals0 ?s =
             Threw ''quota exceeded'' (issue (AppendRaw [rowA]) False ?s1)"
    using inst' c r by (simp add: pageAB_def locals0_def)
  have s: "State_sheet (snd (main envAppend dec2025 [Json pageAB] world0)) = State_sheet world0"
    unfolding main_envAppend by simp
  have q: "rejects envAppend 3 = None \<and> rejects envAppend 4 = Some ''quota exceeded''"
    by (simp add: envAppend_def)
  from 0 1 c p s q show ?thesis by simp
qed

section \<open>Invoking again past the end of the window\<close>

lemma collect_none_admitted:
  "\<forall>t \<in> set ts. \<not> in_window w (createdTs e (created_at t)) \<Longrightarrow>
   collect e w ts rows lt s = Ok (rows, lt) s"
  by (induction ts) simp_all

lemma appended_no_append: "list_all no_append evs \<Longrightarrow> appended evs = []"
  by (induction evs rule: appended.induct) (simp_all add: no_append_def)

lemma no_append_final: "final_events no_append"
  by (simp add: final_events_def no_append_def)

lemma grows_process_page_none_admitted:
  assumes "\<forall>t \<in> set (tickets_of d). \<not> in_window w (createdTs e (created_at t))"
  shows "grows no_append s (world_of (process_page e w d l s))"
proof -
  have c: "collect e w (tickets_of d) [] (lastTicketID l) s = Ok ([], lastTicketID l) s"
    by (rule collect_none_admitted [OF assms])
  have u: "grows no_append s
             (world_of (call e (UpdateState (end_time d)) (update_state (end_time d)) s))"
    by (rule grows_call) (simp_all add: no_append_def update_state_def)
  show ?thesis
    unfolding process_page_def Let_def tickets_of_def [symmetric]
    apply (simp add: c append_rows_def del: world_of.simps)
    apply (rule grows_bind [OF u])
    apply (rule grows_bind)
     apply (rule grows_log)
     apply (simp_all add: no_append_def)
    done
qed

lemma page_loop_one_page:
  assumes "process_page e w d l (issue (FetchPage u) True s) = Ok l' s'"
    and "js_ge (checkpoint l') (endTimestamp w)"
  shows "page_loop e w (Json d # ps) (Some u) l s = Ok l' s'"
  using assms by (simp add: fetch_json_def)

text \<open>
  C7, as the code has it. Let the stored cursor be at or past the end of the window, let
  the page fetched at it satisfy the paginator contract, and let no ticket of that page
  pass the window test. Then an invocation appends no staging row, whatever fails; and
  when nothing fails it reads the state, fetches that one page, rewrites the checkpoint
  with the page's \<open>end_time\<close>, adds one \<open>Running\<close> audit row and goes on to the
  finalizer.
\<close>

theorem reinvocation_past_window_end:
  assumes "get_checkpoint w (State_sheet s) = Some c" and "endTimestamp w \<le> c"
    and "end_time d = Some c'" and "c \<le> c'"
    and "\<forall>t \<in> set (tickets_of d). \<not> in_window w (createdTs e (created_at t))"
  shows "appended (since s (snd (main e w (Json d # ps) s))) = [] \<and>
         ((\<forall>n. rejects e n = None) \<longrightarrow>
          run e w (Json d # ps) s =
            finalize e w (RECIPIENTS e)
              \<lparr>checkpoint = Some c', totalFetched = length (tickets_of d), totalSaved = 0,
               lastTicketID = None\<rparr>
              (s\<lparr>State_sheet := set_row2 (''checkpoint'', Some c') (State_sheet s),
                 trace := trace s @
                   [(GetState, True),
                    (FetchPage (Incremental (Some c)), True),
                    (UpdateState (Some c'), True),
                    (AppendLog (running_row w c' (length (tickets_of d))), True)],
                 Logs := Logs s @ [running_row w c' (length (tickets_of d))]\<rparr>))"
proof (intro conjI impI)
  let ?s1 = "issue GetState True s"
  let ?l = "\<lparr>checkpoint = Some c, totalFetched = 0, totalSaved = 0, lastTicketID = None\<rparr>"
  let ?s2 = "issue (FetchPage (Incremental (Some c))) True ?s1"
  have g1: "grows no_append s ?s1" by (rule grows_issue) (simp add: no_append_def)
  have g2: "grows no_append ?s1 ?s2" by (rule grows_issue) (simp add: no_append_def)
  have gp: "grows no_append ?s2 (world_of (process_page e w d ?l ?s2))"
    by (rule grows_process_page_none_admitted [OF assms(5)])
  have gl: "grows no_append ?s1 (world_of (page_loop e w (Json d # ps) (Some (Incremental (Some c))) ?l ?s1))"
  proof (cases "process_page e w d ?l ?s2")
    case (Ok l' s')
    then have "checkpoint l' = Some c'" using process_page_Ok_State assms(3) by fastforce
    then have "js_ge (checkpoint l') (endTimestamp w)"
      using assms(2,4) by (simp add: js_ge_def)
    from page_loop_one_page [OF Ok this] show ?thesis
      using grows_trans [OF g2 gp] Ok by simp
  next
    case (Threw m s')
    then show ?thesis using grows_trans [OF g2 gp] by (simp add: fetch_json_def)
  next
    case (Starved s')
    then show ?thesis using grows_trans [OF g2 gp] by (simp add: fetch_json_def)
  qed
  have gr: "grows no_append s (world_of (run e w (Json d # ps) s))"
  proof (cases "rejects e (length (trace s))")
    case (Some m)
    then show ?thesis
      by (auto simp: run_def call_def intro!: grows_issue simp: no_append_def)
  next
    case None
    have "grows no_append ?s1
            (world_of (case page_loop e w (Json d # ps) (Some (Incremental (Some c))) ?l ?s1 of
                         Ok l' s2 \<Rightarrow> finalize e w (RECIPIENTS e) l' s2
                       | Threw m s2 \<Rightarrow> Threw m s2 | Starved s2 \<Rightarrow> Starved s2))"
      by (rule grows_bind [OF gl]) (rule grows_finalize [OF no_append_final])
    from grows_trans [OF g1 this] show ?thesis
      using None assms(1) by (simp add: run_def call_def Let_def del: page_loop.simps)
  qed
  have "grows no_append s (snd (main e w (Json d # ps) s))"
  proof (cases "run e w (Json d # ps) s")
    case (Threw m s')
    have "grows no_append s'
            (world_of (log e w (''ERROR: '' @ m) (Text ''UNKNOWN'') 0 0 (Text ''FAIL'') s'))"
      by (rule grows_log) (simp add: no_append_def)
    from grows_trans [OF _ this] gr Threw show ?thesis by (simp add: main_def)
  qed (use gr in \<open>simp_all add: main_def\<close>)
  then show "appended (since s (snd (main e w (Json d # ps) s))) = []"
    by (intro appended_no_append grows_since)
next
  assume r: "\<forall>n. rejects e n = None"
  have c: "\<And>s. collect e w (tickets_of d) [] None s = Ok ([], None) s"
    by (rule collect_none_admitted [OF assms(5)])
  show "run e w (Json d # ps) s =
            finalize e w (RECIPIENTS e)
              \<lparr>checkpoint = Some c', totalFetched = length (tickets_of d), totalSaved = 0,
               lastTicketID = None\<rparr>
              (s\<lparr>State_sheet := set_row2 (''checkpoint'', Some c') (State_sheet s),
                 trace := trace s @
                   [(GetState, True),
                    (FetchPage (Incremental (Some c)), True),
                    (UpdateState (Some c'), True),
                    (AppendLog (running_row w c' (length (tickets_of d))), True)],
                 Logs := Logs s @ [running_row w c' (length (tickets_of d))]\<rparr>)"
    using assms(1-4) r
    by (simp add: run_def call_def fetch_json_def process_page_def tickets_of_def [symmetric] c
        append_rows_def log_def update_state_def js_ge_def cell_of_num_def running_row_def
        issue_def Let_def)
qed

theorem reinvocation_past_window_end_witness:
  "get_checkpoint dec2025 (State_sheet worldA) = Some 1767225600 \<and>
   endTimestamp dec2025 \<le> 1767225600 \<and>
   end_time pageJan = Some 1767225700 \<and>
   tickets_of pageJan = [ticketB] \<and>
   \<not> in_window dec2025 (createdTs env0 (created_at ticketB)) \<and>
   (\<forall>n. rejects env0 n = None) \<and>
   appended (since worldA (snd (main env0 dec2025 [Json pageJan] worldA))) = [] \<and>
   run env0 dec2025 [Json pageJan] worldA =
     finalize env0 dec2025 (RECIPIENTS env0)
       \<lparr>checkpoint = Some 1767225700, totalFetched = 1, totalSaved = 0, lastTicketID = None\<rparr>
       (worldA\<lparr>State_sheet := [(''key'', None), (''checkpoint'', Some 1767225700)],
               trace := [(GetState, True),
                         (FetchPage (Incremental (Some 1767225600)), True),
                         (UpdateState (Some 1767225700), True),
                         (AppendLog (running_row dec2025 1767225700 1), True)],
               Logs := [running_row dec2025 1767225700 1]\<rparr>)"
proof -
  have g: "get_checkpoint dec2025 (State_sheet worldA) = Some 1767225600"
    by (simp add: get_checkpoint_def worldA_def)
  have e: "endTimestamp dec2025 \<le> 1767225600" by (simp add: dec2025_def)
  have p: "end_time pageJan = Some 1767225700" by (simp add: pageJan_def)
  have t: "tickets_of pageJan = [ticketB]" by (simp add: tickets_of_def pageJan_def)
  have n: "\<not> in_window dec2025 (createdTs env0 (created_at ticketB))"
    by (simp add: script_defs input_defs)
  have a: "\<forall>t \<in> set (tickets_of pageJan). \<not> in_window dec2025 (createdTs env0 (created_at t))"
    using t n by simp
  have r: "\<forall>n. rejects env0 n = None" by (simp add: env0_def)
  from reinvocation_past_window_end [OF g e p _ a, of "[]"] r t
  have "appended (since worldA (snd (main env0 dec2025 [Json pageJan] worldA))) = [] \<and>
        run env0 dec2025 [Json pageJan] worldA =
          finalize env0 dec2025 (RECIPIENTS env0)
            \<lparr>checkpoint = Some 1767225700, totalFetched = 1, totalSaved = 0, lastTicketID = None\<rparr>
            (worldA\<lparr>State_sheet := set_row2 (''checkpoint'', Some 1767225700) (State_sheet worldA),
                    trace := trace worldA @
                      [(GetState, True),
                       (FetchPage (Incremental (Some 1767225600)), True),
                       (UpdateState (Some 1767225700), True),
                       (AppendLog (running_row dec2025 1767225700 1), True)],
                    Logs := Logs worldA @ [running_row dec2025 1767225700 1]\<rparr>)"
    by simp
  then show ?thesis
    using g e p t n r by (simp add: worldA_def set_row2_def)
qed

text \<open>
  The cursor stored for December is at the end of the window and the staging sheet holds
  the row of ticket 101. The page fetched at that cursor carries ticket 101 again, which
  was created inside December: the invocation appends its row once more, and the report
  holds it twice.
\<close>

theorem reinvocation_appends_row_again:
  "get_checkpoint dec2025 (State_sheet worldA) = Some (endTimestamp dec2025) \<and>
   Tickets_Raw worldA = [rowA] \<and>
   appended (since worldA (snd (main env0 dec2025 [Json pageRe] worldA))) = [rowA] \<and>
   map contents (files (snd (main env0 dec2025 [Json pageRe] worldA))) =
     [[Header report_header, Data rowA, Data rowA]]"
  by (simp add: worldA_def pageRe_def script_defs input_defs)

section \<open>The committed cursor never goes back while it exists\<close>

lemma follows_refl: "follows w c s c s"
  by (simp add: follows_def)

lemma follows_trans: "follows w a s b s' \<Longrightarrow> follows w b s' c s'' \<Longrightarrow> follows w a s c s''"
  by (auto simp: follows_def)

lemma foldl_cursor_neutral:
  "list_all cursor_neutral evs \<Longrightarrow> foldl (cursor_step st) (Some c) evs = Some c"
  by (induction evs) (simp_all add: cursor_neutral_def)

lemma quiet_refl [simp]: "quiet s s"
  by (simp add: quiet_def)

lemma quiet_trans: "quiet a b \<Longrightarrow> quiet b c \<Longrightarrow> quiet a c"
  by (auto simp: quiet_def intro: grows_trans)

lemma quiet_follows: "quiet s s' \<Longrightarrow> follows w c s c s'"
  by (auto simp: quiet_def grows_def follows_def foldl_cursor_neutral)

lemma quiet_stored: "quiet s s' \<Longrightarrow> stored w c s \<Longrightarrow> stored w c s'"
  by (simp add: quiet_def stored_def)

lemma quiet_issue: "cursor_neutral (rq, b) \<Longrightarrow> quiet s (issue rq b s)"
  by (simp add: quiet_def grows_issue)

lemma quiet_call:
  assumes "\<And>b. cursor_neutral (rq, b)"
    and "\<And>x. trace (f x) = trace x" and "\<And>x. State_sheet (f x) = State_sheet x"
  shows "quiet s (world_of (call e rq f s))"
  using assms grows_call [of cursor_neutral rq f s e]
  by (auto simp: quiet_def call_def split: option.splits)

lemma cursor_neutral_simps [simp]:
  "cursor_neutral (FetchPage u, b)" "cursor_neutral (FetchUser i, b)"
  "cursor_neutral (FetchComments j, b)" "cursor_neutral (GetState, b)"
  "cursor_neutral (AppendRaw rows, b)" "cursor_neutral (UpdateState v, False)"
  "cursor_neutral (AppendLog r, b)" "cursor_neutral (CreateFile n, b)"
  "cursor_neutral (GetRaw, b)" "cursor_neutral (UpdateReport k vs, b)"
  "cursor_neutral (CreatePermission k m, b)" "cursor_neutral (SendMail ml, b)"
  "cursor_neutral (ClearState, False)" "cursor_neutral (ClearRaw, b)"
  "cursor_neutral (ClearLogs, b)"
  by (simp_all add: cursor_neutral_def)

lemma quiet_collect: "quiet s (world_of (collect e w ts rows lt s))"
  using same_store_collect [of s e w ts rows lt]
    grows_collect [of cursor_neutral s e w ts rows lt]
  by (simp add: quiet_def same_store_def lookup_free_def)

lemma quiet_log: "quiet s (world_of (log e w st cp f sv lt s))"
  unfolding log_def Let_def by (rule quiet_call) simp_all

lemma quiet_append_rows: "quiet s (world_of (append_rows e rows s))"
  unfolding append_rows_def by (auto intro!: quiet_call)

lemma only_row2_set_row2 [simp]: "only_row2 (set_row2 r rows) = only_row2 rows"
  by (cases rows; cases "tl rows") (auto simp: only_row2_def set_row2_def)

lemma only_row2_drop: "only_row2 rows \<Longrightarrow> \<forall>r \<in> set (drop 2 rows). fst r \<noteq> ''checkpoint''"
  by (simp add: only_row2_def)

lemma get_checkpoint_cleared:
  assumes "only_row2 rows"
  shows "get_checkpoint w (set_row2 ([], None) rows) = Some (startTimestamp w)"
proof (cases rows)
  case Nil
  then show ?thesis by (simp add: get_checkpoint_def set_row2_def)
next
  case (Cons a rest)
  then have a: "fst a \<noteq> ''checkpoint''" using assms by (simp add: only_row2_def)
  show ?thesis
  proof (cases rest)
    case Nil
    then show ?thesis using Cons a by (simp add: get_checkpoint_def set_row2_def)
  next
    case (Cons b more)
    then have "\<forall>r \<in> set more. fst r \<noteq> ''checkpoint''"
      using assms \<open>rows = a # rest\<close> by (simp add: only_row2_def)
    then show ?thesis
      using Cons \<open>rows = a # rest\<close> a
      by (simp add: get_checkpoint_def set_row2_def foldl_no_key)
  qed
qed

lemma commit_follows:
  assumes "stored w c s" and "c \<le> c'"
  shows "follows w c s c' (update_state (Some c') (issue (UpdateState (Some c')) True s)) \<and>
         stored w c' (update_state (Some c') (issue (UpdateState (Some c')) True s))"
  using assms get_checkpoint_set_row2 [OF only_row2_drop, of "State_sheet s" w "Some c'"]
  by (simp add: follows_def stored_def update_state_def)

lemma clear_follows:
  assumes "stored w c s"
  shows "follows w c s (startTimestamp w) (clear_state (issue ClearState True s)) \<and>
         stored w (startTimestamp w) (clear_state (issue ClearState True s))"
  using assms get_checkpoint_cleared [of "State_sheet s" w]
  by (simp add: follows_def stored_def clear_state_def)

lemma safe_refl [simp]: "safe w s s"
  unfolding safe_def by (blast intro: follows_refl)

lemma safe_trans: "safe w a b \<Longrightarrow> safe w b c \<Longrightarrow> safe w a c"
  unfolding safe_def by (meson follows_trans)

lemma quiet_safe: "quiet s s' \<Longrightarrow> safe w s s'"
  by (auto simp: safe_def intro: quiet_follows quiet_stored)

lemma safeD: "safe w s s' \<Longrightarrow> stored w c s \<Longrightarrow> \<exists>c'. follows w c s c' s' \<and> stored w c' s'"
  by (simp add: safe_def)

lemma cursor_process_page:
  assumes st: "stored w c s" and et: "end_time d = Some c'" and le: "c \<le> c'"
  shows "\<exists>c''. follows w c s c'' (world_of (process_page e w d l s)) \<and>
               stored w c'' (world_of (process_page e w d l s)) \<and>
               (\<forall>l' s'. process_page e w d l s = Ok l' s' \<longrightarrow> c'' = c' \<and> checkpoint l' = Some c')"
proof -
  let ?ts = "case tickets d of None \<Rightarrow> [] | Some ts \<Rightarrow> ts"
  have qc: "quiet s (world_of (collect e w ?ts [] (lastTicketID l) s))" by (rule quiet_collect)
  show ?thesis
  proof (cases "collect e w ?ts [] (lastTicketID l) s")
    case (Threw m s1)
    then have "process_page e w d l s = Threw m s1" by (simp add: process_page_def Let_def)
    then show ?thesis using qc Threw st by (auto intro: quiet_follows quiet_stored)
  next
    case (Starved s1)
    then show ?thesis by (simp add: collect_not_Starved)
  next
    case (Ok a s1)
    obtain rows lt where a: "a = (rows, lt)" by (cases a)
    note co = Ok [unfolded a]
    have q1: "quiet s s1" using qc Ok by simp
    have qa: "quiet s1 (world_of (append_rows e rows s1))" by (rule quiet_append_rows)
    show ?thesis
    proof (cases "append_rows e rows s1")
      case (Threw m s2)
      then have "process_page e w d l s = Threw m s2"
        using co by (simp add: process_page_def Let_def)
      moreover have "quiet s s2" using quiet_trans [OF q1 qa] Threw by simp
      ultimately show ?thesis using st by (auto intro: quiet_follows quiet_stored)
    next
      case (Starved s2)
      then show ?thesis by (simp add: append_rows_def split: if_splits)
    next
      case (Ok u s2)
      note ap = this
      have q2: "quiet s s2" using quiet_trans [OF q1 qa] Ok by simp
      have st2: "stored w c s2" by (rule quiet_stored [OF q2 st])
      show ?thesis
      proof (cases "rejects e (length (trace s2))")
        case (Some m)
        then have "process_page e w d l s = Threw m (issue (UpdateState (Some c')) False s2)"
          using co ap et by (simp add: process_page_def call_def Let_def)
        moreover have "quiet s (issue (UpdateState (Some c')) False s2)"
          by (rule quiet_trans [OF q2 quiet_issue]) simp
        ultimately show ?thesis using st by (auto intro: quiet_follows quiet_stored)
      next
        case None
        let ?s3 = "update_state (Some c') (issue (UpdateState (Some c')) True s2)"
        let ?lg = "log e w ''Running'' (cell_of_num (Some c')) (totalFetched l + length ?ts)
                     (totalSaved l + length rows) (cell_of_num lt) ?s3"
        have f3: "follows w c s c' ?s3" and st3: "stored w c' ?s3"
          using commit_follows [OF st2 le] follows_trans [OF quiet_follows [OF q2]] by blast+
        have ql: "quiet ?s3 (world_of ?lg)" by (rule quiet_log)
        have f4: "follows w c s c' (world_of ?lg)"
          by (rule follows_trans [OF f3 quiet_follows [OF ql]])
        have st4: "stored w c' (world_of ?lg)" by (rule quiet_stored [OF ql st3])
        have pp: "process_page e w d l s =
                    (case ?lg of
                       Ok u s4 \<Rightarrow> Ok \<lparr>checkpoint = Some c', totalFetched = totalFetched l + length ?ts,
                                       totalSaved = totalSaved l + length rows, lastTicketID = lt\<rparr> s4
                     | Threw m s4 \<Rightarrow> Threw m s4 | Starved s4 \<Rightarrow> Starved s4)"
          using co ap et None by (simp add: process_page_def call_def Let_def)
        show ?thesis
          using f4 st4 unfolding pp by (cases ?lg) auto
      qed
    qed
  qed
qed

lemma cursor_page_loop:
  "stored w c s \<Longrightarrow> contract (Some c) ps \<Longrightarrow>
   \<exists>c''. follows w c s c'' (world_of (page_loop e w ps nextUrl l s)) \<and>
         stored w c'' (world_of (page_loop e w ps nextUrl l s))"
proof (induction e w ps nextUrl l s arbitrary: c rule: page_loop.induct)
  case (1 e w ps l s)
  then show ?case by simp (blast intro: follows_refl)
next
  case (2 e w nextUrl l s)
  then show ?case by simp (blast intro: follows_refl)
next
  case (3 e w p ps nextUrl l s)
  show ?case
  proof (cases p)
    case (Throws m)
    have "quiet s (issue (FetchPage nextUrl) False s)" by (rule quiet_issue) simp
    then show ?thesis
      using Throws "3.prems"(1) by (auto simp: fetch_json_def intro: quiet_follows quiet_stored)
  next
    case (Json d)
    then obtain c' where et: "end_time d = Some c'" and le: "c \<le> c'"
      and rest: "contract (Some c') ps"
      using "3.prems"(2) by (auto split: option.splits)
    let ?s1 = "issue (FetchPage nextUrl) True s"
    have q1: "quiet s ?s1" by (rule quiet_issue) simp
    have st1: "stored w c ?s1" by (rule quiet_stored [OF q1 "3.prems"(1)])
    from cursor_process_page [OF st1 et le, of e l]
    obtain c'' where f2: "follows w c ?s1 c'' (world_of (process_page e w d l ?s1))"
      and st2: "stored w c'' (world_of (process_page e w d l ?s1))"
      and ok: "\<And>l' s'. process_page e w d l ?s1 = Ok l' s' \<Longrightarrow> c'' = c' \<and> checkpoint l' = Some c'"
      by blast
    have f2': "follows w c s c'' (world_of (process_page e w d l ?s1))"
      by (rule follows_trans [OF quiet_follows [OF q1] f2])
    show ?thesis
    proof (cases "process_page e w d l ?s1")
      case (Ok l' s2)
      then have c'': "c'' = c'" using ok by blast
      show ?thesis
      proof (cases "end_of_stream d \<or> js_ge (checkpoint l') (endTimestamp w)")
        case True
        then show ?thesis using Json Ok f2' st2 by (auto simp: fetch_json_def)
      next
        case False
        have "stored w c' s2" using st2 Ok c'' by simp
        from "3.IH" [of d ?s1 l' s2 c', OF _ _ _ this rest] Json Ok False
        obtain c3 where "follows w c' s2 c3 (world_of (page_loop e w ps (next_page d) l' s2))"
          and "stored w c3 (world_of (page_loop e w ps (next_page d) l' s2))"
          by (auto simp: fetch_json_def)
        then show ?thesis
          using Json Ok False f2' c'' by (auto simp: fetch_json_def intro: follows_trans)
      qed
    next
      case (Threw m s2)
      then show ?thesis using Json f2' st2 by (auto simp: fetch_json_def)
    next
      case (Starved s2)
      then show ?thesis using Json f2' st2 by (auto simp: fetch_json_def)
    qed
  qed
qed

lemma quiet_share: "quiet s (world_of (share e exportId recipients s))"
proof (induction recipients arbitrary: s)
  case Nil
  then show ?case by simp
next
  case (Cons email rest)
  have c: "quiet s (world_of (call e (CreatePermission exportId email)
             (\<lambda>s. s\<lparr>files := (files s)[exportId :=
                (files s ! exportId)\<lparr>permissions := permissions (files s ! exportId) @ [email]\<rparr>]\<rparr>) s))"
    by (rule quiet_call) simp_all
  show ?case
    apply (simp only: share.simps)
    apply (rule rel_bind [of quiet, OF quiet_trans c], assumption+)
    apply (rule Cons.IH)
    done
qed

lemma quiet_send_link: "quiet s (world_of (send_link e w recipients exportId s))"
  unfolding send_link_def Let_def by (auto intro!: quiet_call)

lemma safe_clear: "safe w s (world_of (call e ClearState clear_state s))"
proof (cases "rejects e (length (trace s))")
  case (Some m)
  have "quiet s (issue ClearState False s)" by (rule quiet_issue) simp
  then show ?thesis using Some by (simp add: call_def quiet_safe)
next
  case None
  then show ?thesis using clear_follows [of w _ s] by (auto simp: call_def safe_def)
qed

lemma safe_cleanup: "safe w s (world_of (cleanup e w l s))"
  unfolding cleanup_def
  apply (rule rel_bind [of "safe w", OF safe_trans safe_clear], assumption+)
  apply (rule rel_bind [of "safe w", OF safe_trans], assumption+)
   apply (rule quiet_safe [OF quiet_call]; simp)
  apply (rule quiet_safe [OF quiet_log])
  done

lemma safe_finalize: "safe w s (world_of (finalize e w recipients l s))"
  unfolding finalize_def Let_def
  apply (rule rel_bind [of "safe w", OF safe_trans], assumption+)
   apply (rule quiet_safe [OF quiet_call]; simp)
  apply (rule rel_bind [of "safe w", OF safe_trans], assumption+)
   apply (rule quiet_safe [OF quiet_call]; simp)
  apply (rule rel_bind [of "safe w", OF safe_trans], assumption+)
   apply (rule quiet_safe [OF quiet_call]; simp)
  apply (rule rel_bind [of "safe w", OF safe_trans], assumption+)
   apply (rule quiet_safe [OF quiet_share])
  apply (rule rel_bind [of "safe w", OF safe_trans], assumption+)
   apply (rule quiet_safe [OF quiet_send_link])
  apply (rule safe_cleanup)
  done

lemma cursor_run:
  assumes st: "stored w c s" and ct: "contract (Some c) ps"
  shows "\<exists>c'. follows w c s c' (world_of (run e w ps s)) \<and> stored w c' (world_of (run e w ps s))"
proof (cases "rejects e (length (trace s))")
  case (Some m)
  have "quiet s (issue GetState False s)" by (rule quiet_issue) simp
  then show ?thesis
    using Some st by (auto simp: run_def call_def intro: quiet_follows quiet_stored)
next
  case None
  let ?s1 = "issue GetState True s"
  let ?l = "\<lparr>checkpoint = Some c, totalFetched = 0, totalSaved = 0, lastTicketID = None\<rparr>"
  let ?pl = "page_loop e w ps (Some (Incremental (Some c))) ?l ?s1"
  have q1: "quiet s ?s1" by (rule quiet_issue) simp
  have st1: "stored w c ?s1" by (rule quiet_stored [OF q1 st])
  have cp: "get_checkpoint w (State_sheet s) = Some c" using st by (simp add: stored_def)
  have r: "run e w ps s =
             (case ?pl of Ok l' s2 \<Rightarrow> finalize e w (RECIPIENTS e) l' s2
              | Threw m s2 \<Rightarrow> Threw m s2 | Starved s2 \<Rightarrow> Starved s2)"
    using None cp by (simp add: run_def call_def Let_def)
  from cursor_page_loop [OF st1 ct]
  obtain c1 where f1: "follows w c ?s1 c1 (world_of ?pl)" and s1: "stored w c1 (world_of ?pl)"
    by blast
  have f1': "follows w c s c1 (world_of ?pl)"
    by (rule follows_trans [OF quiet_follows [OF q1] f1])
  show ?thesis
  proof (cases ?pl)
    case (Ok l' s2)
    from safeD [OF safe_finalize, of w c1 s2 e "RECIPIENTS e" l'] s1 Ok
    obtain c2 where "follows w c1 s2 c2 (world_of (finalize e w (RECIPIENTS e) l' s2))"
      and "stored w c2 (world_of (finalize e w (RECIPIENTS e) l' s2))"
      by auto
    then show ?thesis
      using f1' Ok unfolding r by (auto intro: follows_trans)
  next
    case (Threw m s2)
    then show ?thesis using f1' s1 unfolding r by auto
  next
    case (Starved s2)
    then show ?thesis using f1' s1 unfolding r by auto
  qed
qed

lemma cursor_main:
  assumes st: "stored w c s" and ct: "contract (Some c) ps"
  shows "\<exists>c'. follows w c s c' (snd (main e w ps s)) \<and> stored w c' (snd (main e w ps s))"
proof -
  from cursor_run [OF st ct]
  obtain c1 where f: "follows w c s c1 (world_of (run e w ps s))"
    and s1: "stored w c1 (world_of (run e w ps s))"
    by blast
  show ?thesis
  proof (cases "run e w ps s")
    case (Threw m s')
    let ?lg = "log e w (''ERROR: '' @ m) (Text ''UNKNOWN'') 0 0 (Text ''FAIL'') s'"
    have q: "quiet s' (world_of ?lg)" by (rule quiet_log)
    have "follows w c s c1 (world_of ?lg)"
      using follows_trans [OF _ quiet_follows [OF q]] f Threw by simp
    moreover have "stored w c1 (world_of ?lg)"
      using quiet_stored [OF q] s1 Threw by simp
    ultimately show ?thesis using Threw by (auto simp: main_def)
  qed (use f s1 in \<open>auto simp: main_def\<close>)
qed

lemma cursor_invocations:
  "stored w c s \<Longrightarrow> contracts w invs s \<Longrightarrow>
   \<exists>c'. follows w c s c' (invocations w invs s) \<and> stored w c' (invocations w invs s)"
proof (induction invs arbitrary: c s)
  case Nil
  then show ?case by simp (blast intro: follows_refl)
next
  case (Cons i rest)
  have ct: "contract (Some c) (snd i)"
    using Cons.prems by (simp add: stored_def)
  from cursor_main [OF Cons.prems(1) ct, of "fst i"]
  obtain c1 where f1: "follows w c s c1 (snd (main (fst i) w (snd i) s))"
    and s1: "stored w c1 (snd (main (fst i) w (snd i) s))"
    by blast
  from Cons.IH [OF s1] Cons.prems(2)
  obtain c2 where "follows w c1 (snd (main (fst i) w (snd i) s)) c2 (invocations w (i # rest) s)"
    and "stored w c2 (invocations w (i # rest) s)"
    by auto
  then show ?case using f1 by (blast intro: follows_trans)
qed

lemma follows_since:
  "follows w c s c' s' \<Longrightarrow> foldl (cursor_step (startTimestamp w)) (Some c) (since s s') = Some c'"
  by (auto simp: follows_def since_def)

text \<open>The check does refuse a completed write of a smaller cursor.\<close>

lemma cursor_step_refuses_smaller_cursor:
  "foldl (cursor_step 10) (Some 10) [(UpdateState (Some 30), True), (UpdateState (Some 20), True)] =
     None"
  by simp

text \<open>
  C5, as the code has it. Take a store whose State sheet carries the key in its second
  row at most and whose cursor for the window (the stored one, or the start of the window
  when there is none) is not below the start of the window. Over any sequence of
  invocations for that window, each served under the paginator contract, with any
  failures: every completed checkpoint write carries a cursor that is not below the one
  committed before it and not below the start of the window, until a completed clear by
  the finalizer sets the cursor back to the start of the window; and the cursor the next
  invocation would read is the one the trace ends with.
\<close>

theorem committed_cursor_monotone_until_cleared:
  assumes "only_row2 (State_sheet s)"
    and "get_checkpoint w (State_sheet s) = Some c" and "startTimestamp w \<le> c"
    and "contracts w invs s"
  shows "\<exists>c'. foldl (cursor_step (startTimestamp w)) (Some c) (since s (invocations w invs s)) =
                Some c' \<and>
              get_checkpoint w (State_sheet (invocations w invs s)) = Some c' \<and>
              startTimestamp w \<le> c'"
proof -
  have "stored w c s" using assms(1-3) by (simp add: stored_def)
  from cursor_invocations [OF this assms(4)]
  obtain c' where "follows w c s c' (invocations w invs s)"
    and "stored w c' (invocations w invs s)"
    by blast
  then show ?thesis by (auto simp: stored_def dest: follows_since)
qed

theorem committed_cursor_monotone_until_cleared_witness:
  "only_row2 (State_sheet world0) \<and>
   get_checkpoint dec2025 (State_sheet world0) = Some 1764547200 \<and>
   startTimestamp dec2025 \<le> 1764547200 \<and>
   contracts dec2025 interrupted_twice world0 \<and>
   commits (since world0 (invocations dec2025 interrupted_twice world0)) =
     [Some 1764547300, Some 1764547400] \<and>
   foldl (cursor_step (startTimestamp dec2025)) (Some 1764547200)
     (since world0 (invocations dec2025 interrupted_twice world0)) = Some 1764547400 \<and>
   get_checkpoint dec2025 (State_sheet (invocations dec2025 interrupted_twice world0)) =
     Some 1764547400"
proof -
  have o: "only_row2 (State_sheet world0)" by (simp add: only_row2_def world0_def)
  have g: "get_checkpoint dec2025 (State_sheet world0) = Some 1764547200"
    by (simp add: get_checkpoint_def world0_def dec2025_def)
  have l: "startTimestamp dec2025 \<le> 1764547200" by (simp add: dec2025_def)
  have c: "contracts dec2025 interrupted_twice world0"
    by (simp add: interrupted_twice_def pageA1_def pageA2_def script_defs input_defs)
  have m: "commits (since world0 (invocations dec2025 interrupted_twice world0)) =
             [Some 1764547300, Some 1764547400]"
    by (simp add: interrupted_twice_def pageA1_def pageA2_def script_defs input_defs)
  from committed_cursor_monotone_until_cleared [OF o g l c]
  obtain c' where
    f: "foldl (cursor_step (startTimestamp dec2025)) (Some 1764547200)
          (since world0 (invocations dec2025 interrupted_twice world0)) = Some c'"
    and r: "get_checkpoint dec2025 (State_sheet (invocations dec2025 interrupted_twice world0)) =
          Some c'"
    by blast
  have "get_checkpoint dec2025 (State_sheet (invocations dec2025 interrupted_twice world0)) =
          Some 1764547400"
    by (simp add: interrupted_twice_def pageA1_def pageA2_def script_defs input_defs)
  with r have "c' = 1764547400" by simp
  with f r o g l c m show ?thesis by simp
qed

text \<open>
  Both invocations are served the same two pages. The first commits 1764547300 and the
  end of December, finalizes and clears the checkpoint. The second starts again from the
  start of December and commits 1764547300, below the cursor committed before it.
\<close>

theorem cursor_restarts_after_completed_export:
  "contracts dec2025 completed_then_again world0 \<and>
   commits (since world0 (invocations dec2025 completed_then_again world0)) =
     [Some 1764547300, Some 1767225600, Some 1764547300, Some 1767225600]"
  by (simp add: completed_then_again_def pageA1_def script_defs input_defs)

end
